theory Spec2Isabelle
  imports Main "HOL-Library.Sublist"
begin

section \<open>The ordered map of \<^verbatim>\<open>lib/file/ordered_map.go\<close>\<close>

subsection \<open>Data model\<close>

text \<open>
  A Go \<^verbatim>\<open>interface{}\<close> value: the nil interface, a value of dynamic type \<^verbatim>\<open>int\<close>,
  or a value of any other dynamic type (carried by the type parameter). Both the key
  argument and the stored values of the container have this type.
  The keys themselves are Go \<^verbatim>\<open>int\<close>s. The container only compares them (no arithmetic
  is done on a key), so they are modelled by the mathematical integers.
\<close>

datatype 'a iface = VNil | VInt int | VOther 'a

text \<open>The run-time panics the operations can raise.\<close>

datatype panic = TypeAssertion | SliceBounds | NilMapAssign

text \<open>
  A Go map with \<^verbatim>\<open>int\<close> keys is either the nil map or a map made by \<^verbatim>\<open>make\<close>. Both read
  alike: an index expression on the nil map finds nothing, \<^verbatim>\<open>delete\<close> on it does nothing
  and its \<^verbatim>\<open>len\<close> is 0. An assignment to an entry of the nil map panics.
\<close>

datatype 'v gomap = NilMap | MadeMap "int \<rightharpoonup> 'v"

fun entries :: "'v gomap \<Rightarrow> int \<rightharpoonup> 'v" where
  "entries NilMap = Map.empty"
| "entries (MadeMap f) = f"

fun map_assign :: "'v gomap \<Rightarrow> int \<Rightarrow> 'v \<Rightarrow> 'v gomap option" where
  "map_assign NilMap k v = None"
| "map_assign (MadeMap f) k v = Some (MadeMap (f(k \<mapsto> v)))"

fun map_delete :: "'v gomap \<Rightarrow> int \<Rightarrow> 'v gomap" where
  "map_delete NilMap k = NilMap"
| "map_delete (MadeMap f) k = MadeMap (f(k := None))"

fun is_made :: "'v gomap \<Rightarrow> bool" where
  "is_made NilMap = False"
| "is_made (MadeMap f) = True"

text \<open>
  The struct \<^verbatim>\<open>OrderedSyncMap\<close>: \<^verbatim>\<open>data map[int]interface{}\<close>, \<^verbatim>\<open>keys []int\<close>,
  \<^verbatim>\<open>keySet map[int]bool\<close>. The field \<^verbatim>\<open>mu\<close> is the lock around every operation; the
  sequential model has one operation run at a time, so it carries no lock state.
  A nil slice and an empty slice behave alike under \<^verbatim>\<open>append\<close>, \<^verbatim>\<open>len\<close>, \<^verbatim>\<open>range\<close> and
  indexing, so the key slice is a list.
\<close>

record 'a osm =
  data :: "'a iface gomap"
  keys :: "int list"
  keySet :: "bool gomap"

text \<open>The constructor makes both maps.\<close>

definition NewOrderedSyncMap :: "'a osm" where
  "NewOrderedSyncMap = \<lparr>data = MadeMap Map.empty, keys = [], keySet = MadeMap Map.empty\<rparr>"

text \<open>
  The type is exported, so a caller can also take its zero value
  (\<^verbatim>\<open>new(file.OrderedSyncMap)\<close>, \<^verbatim>\<open>file.OrderedSyncMap{}\<close>), in which both maps are nil.
\<close>

definition zero_osm :: "'a osm" where
  "zero_osm = \<lparr>data = NilMap, keys = [], keySet = NilMap\<rparr>"

definition made :: "'a osm \<Rightarrow> bool" where
  "made m \<longleftrightarrow> is_made (data m) \<and> is_made (keySet m)"

text \<open>The type assertion \<^verbatim>\<open>key.(int)\<close>: it panics unless the dynamic type is \<^verbatim>\<open>int\<close>.\<close>

fun assert_int :: "'a iface \<Rightarrow> panic + int" where
  "assert_int (VInt k) = Inr k"
| "assert_int VNil = Inl TypeAssertion"
| "assert_int (VOther x) = Inl TypeAssertion"

text \<open>Reading \<^verbatim>\<open>m.keySet[k]\<close>: a key missing from a Go map reads as the zero value.\<close>

definition keySet_get :: "bool gomap \<Rightarrow> int \<Rightarrow> bool" where
  "keySet_get ks k = (case entries ks k of None \<Rightarrow> False | Some b \<Rightarrow> b)"

subsection \<open>The slice primitives\<close>

text \<open>
  \<^verbatim>\<open>sort.SearchInts(a, x)\<close> of the Go standard library is the binary search
  \<^verbatim>\<open>
  i, j := 0, len(a)
  for i < j {
      h := int(uint(i+j) >> 1)
      if a[h] < x { i = h + 1 } else { j = h }
  }
  return i
  \<close>
  The conversion to \<^verbatim>\<open>uint\<close> keeps the midpoint exact, so \<open>h\<close> is \<open>(i + j) div 2\<close>. Every
  index read satisfies \<open>h < j \<le> len(a)\<close>, so the read is in range.
\<close>

function search_loop :: "int list \<Rightarrow> int \<Rightarrow> nat \<Rightarrow> nat \<Rightarrow> nat" where
  "search_loop a x i j =
     (if i < j
      then (if a ! ((i + j) div 2) < x
            then search_loop a x ((i + j) div 2 + 1) j
            else search_loop a x i ((i + j) div 2))
      else i)"
  by pat_completeness auto
termination
  by (relation "measure (\<lambda>(a, x, i, j). j - i)") auto

declare search_loop.simps [simp del]

definition SearchInts :: "int list \<Rightarrow> int \<Rightarrow> nat" where
  "SearchInts a x = search_loop a x 0 (length a)"

text \<open>
  \<^verbatim>\<open>copy(dst[off:], src)\<close>: overwrites \<open>min (len dst - off) (len src)\<close> elements of
  \<open>dst\<close> from index \<open>off\<close> on; the source is read as it was before the call, also when
  both slices share their array.
\<close>

definition copy_slice :: "int list \<Rightarrow> nat \<Rightarrow> int list \<Rightarrow> int list" where
  "copy_slice dst off src =
     (let n = min (length dst - off) (length src)
      in take off dst @ take n src @ drop (off + n) dst)"

text \<open>
  The insertion of Store and LoadOrStore:
  \<^verbatim>\<open>
  m.keys = append(m.keys, 0)
  copy(m.keys[pos+1:], m.keys[pos:])
  m.keys[pos] = k
  \<close>
  The slice expression \<^verbatim>\<open>m.keys[pos+1:]\<close> panics when \<open>pos + 1\<close> exceeds the new length;
  the field has been assigned the appended slice by then. Past that check \<open>pos\<close> is a
  valid index, since \<^verbatim>\<open>copy\<close> keeps the length.
\<close>

definition insert_key :: "int list \<Rightarrow> nat \<Rightarrow> int \<Rightarrow> panic option \<times> int list" where
  "insert_key ks pos k =
     (let ks1 = ks @ [0]
      in if length ks1 < pos + 1 then (Some SliceBounds, ks1)
         else (None, (copy_slice ks1 (pos + 1) (drop pos ks1))[pos := k]))"

text \<open>
  The removal of Delete and LoadAndDelete:
  \<^verbatim>\<open>
  if pos < len(m.keys) && m.keys[pos] == k {
      m.keys = append(m.keys[:pos], m.keys[pos+1:]...)
  }
  \<close>
\<close>

definition remove_key :: "int list \<Rightarrow> nat \<Rightarrow> int \<Rightarrow> int list" where
  "remove_key ks pos k =
     (if pos < length ks \<and> ks ! pos = k then take pos ks @ drop (pos + 1) ks else ks)"

subsection \<open>The operations\<close>

text \<open>
  Every operation returns its outcome (a panic, or the values the Go method returns)
  together with the container state it leaves behind. A panic in the middle of a method
  leaves the fields written so far as they are.
\<close>

text \<open>
  \<^verbatim>\<open>Store\<close>: inside the \<^verbatim>\<open>if\<close>, the key slice is written first and \<^verbatim>\<open>m.keySet[k] = true\<close>
  follows; \<^verbatim>\<open>m.data[k] = value\<close> comes after the \<^verbatim>\<open>if\<close>. Each of the two map assignments
  panics on a nil map.
\<close>

definition Store :: "'a osm \<Rightarrow> 'a iface \<Rightarrow> 'a iface \<Rightarrow> (panic + unit) \<times> 'a osm" where
  "Store m key val =
     (case assert_int key of
        Inl e \<Rightarrow> (Inl e, m)
      | Inr k \<Rightarrow>
          if \<not> keySet_get (keySet m) k
          then (case insert_key (keys m) (SearchInts (keys m) k) k of
                  (Some e, ks) \<Rightarrow> (Inl e, m\<lparr>keys := ks\<rparr>)
                | (None, ks) \<Rightarrow>
                    (case map_assign (keySet m) k True of
                       None \<Rightarrow> (Inl NilMapAssign, m\<lparr>keys := ks\<rparr>)
                     | Some kset \<Rightarrow>
                         (case map_assign (data m) k val of
                            None \<Rightarrow> (Inl NilMapAssign, m\<lparr>keys := ks, keySet := kset\<rparr>)
                          | Some d \<Rightarrow>
                              (Inr (), m\<lparr>keys := ks, keySet := kset, data := d\<rparr>))))
          else (case map_assign (data m) k val of
                  None \<Rightarrow> (Inl NilMapAssign, m)
                | Some d \<Rightarrow> (Inr (), m\<lparr>data := d\<rparr>)))"

definition Load :: "'a osm \<Rightarrow> 'a iface \<Rightarrow> (panic + 'a iface \<times> bool) \<times> 'a osm" where
  "Load m key =
     (case assert_int key of
        Inl e \<Rightarrow> (Inl e, m)
      | Inr k \<Rightarrow>
          (case entries (data m) k of
             Some v \<Rightarrow> (Inr (v, True), m)
           | None \<Rightarrow> (Inr (VNil, False), m)))"

definition Delete :: "'a osm \<Rightarrow> 'a iface \<Rightarrow> (panic + unit) \<times> 'a osm" where
  "Delete m key =
     (case assert_int key of
        Inl e \<Rightarrow> (Inl e, m)
      | Inr k \<Rightarrow>
          if keySet_get (keySet m) k
          then (Inr (), m\<lparr>keys := remove_key (keys m) (SearchInts (keys m) k) k,
                          keySet := map_delete (keySet m) k,
                          data := map_delete (data m) k\<rparr>)
          else (Inr (), m))"

text \<open>
  \<^verbatim>\<open>LoadOrStore\<close>: after the lookup has found nothing, the key slice is written, then
  \<^verbatim>\<open>m.keySet[k] = true\<close>, then \<^verbatim>\<open>m.data[k] = value\<close>; each map assignment panics on a nil
  map.
\<close>

definition LoadOrStore ::
  "'a osm \<Rightarrow> 'a iface \<Rightarrow> 'a iface \<Rightarrow> (panic + 'a iface \<times> bool) \<times> 'a osm" where
  "LoadOrStore m key val =
     (case assert_int key of
        Inl e \<Rightarrow> (Inl e, m)
      | Inr k \<Rightarrow>
          (case entries (data m) k of
             Some v \<Rightarrow> (Inr (v, True), m)
           | None \<Rightarrow>
               (case insert_key (keys m) (SearchInts (keys m) k) k of
                  (Some e, ks) \<Rightarrow> (Inl e, m\<lparr>keys := ks\<rparr>)
                | (None, ks) \<Rightarrow>
                    (case map_assign (keySet m) k True of
                       None \<Rightarrow> (Inl NilMapAssign, m\<lparr>keys := ks\<rparr>)
                     | Some kset \<Rightarrow>
                         (case map_assign (data m) k val of
                            None \<Rightarrow> (Inl NilMapAssign, m\<lparr>keys := ks, keySet := kset\<rparr>)
                          | Some d \<Rightarrow>
                              (Inr (val, False),
                               m\<lparr>keys := ks, keySet := kset, data := d\<rparr>))))))"

definition LoadAndDelete :: "'a osm \<Rightarrow> 'a iface \<Rightarrow> (panic + 'a iface \<times> bool) \<times> 'a osm" where
  "LoadAndDelete m key =
     (case assert_int key of
        Inl e \<Rightarrow> (Inl e, m)
      | Inr k \<Rightarrow>
          (case entries (data m) k of
             Some v \<Rightarrow>
               (Inr (v, True),
                m\<lparr>keys := remove_key (keys m) (SearchInts (keys m) k) k,
                  keySet := map_delete (keySet m) k,
                  data := map_delete (data m) k\<rparr>)
           | None \<Rightarrow> (Inr (VNil, False), m)))"

text \<open>\<^verbatim>\<open>Len\<close> is \<^verbatim>\<open>len(m.data)\<close>, the number of entries of the mapping.\<close>

definition Len :: "'a osm \<Rightarrow> int" where
  "Len m = int (card (dom (entries (data m))))"

text \<open>\<^verbatim>\<open>Keys\<close> returns a fresh copy of the key slice.\<close>

definition Keys :: "'a osm \<Rightarrow> int list" where
  "Keys m = keys m"

text \<open>
  \<^verbatim>\<open>Range\<close>: the callback is a Go closure, so it may carry state of its own; it is a
  function from its state to its verdict and its next state. The container is only read.
  \<^verbatim>\<open>
  for _, k := range m.keys {
      if v, ok := m.data[k]; ok {
          if !f(k, v) { break }
      }
  }
  \<close>
\<close>

fun range_loop ::
  "(int \<Rightarrow> 'a iface \<Rightarrow> 'c \<Rightarrow> bool \<times> 'c) \<Rightarrow> (int \<rightharpoonup> 'a iface) \<Rightarrow> int list \<Rightarrow> 'c \<Rightarrow> 'c" where
  "range_loop f d [] c = c"
| "range_loop f d (k # ks) c =
     (case d k of
        None \<Rightarrow> range_loop f d ks c
      | Some v \<Rightarrow>
          (case f k v c of
             (True, c') \<Rightarrow> range_loop f d ks c'
           | (False, c') \<Rightarrow> c'))"

definition Range_osm :: "'a osm \<Rightarrow> (int \<Rightarrow> 'a iface \<Rightarrow> 'c \<Rightarrow> bool \<times> 'c) \<Rightarrow> 'c \<Rightarrow> 'c" where
  "Range_osm m f c = range_loop f (entries (data m)) (keys m) c"

text \<open>
  To speak about the calls \<^verbatim>\<open>Range\<close> makes, a callback is wrapped so that it also logs
  each call: the key, the value and the verdict it returned.
\<close>

definition logged ::
  "(int \<Rightarrow> 'a iface \<Rightarrow> 'c \<Rightarrow> bool \<times> 'c) \<Rightarrow>
   int \<Rightarrow> 'a iface \<Rightarrow> 'c \<times> (int \<times> 'a iface \<times> bool) list \<Rightarrow>
   bool \<times> 'c \<times> (int \<times> 'a iface \<times> bool) list" where
  "logged f k v = (\<lambda>(c, log). case f k v c of (b, c') \<Rightarrow> (b, c', log @ [(k, v, b)]))"

definition visits ::
  "'a osm \<Rightarrow> (int \<Rightarrow> 'a iface \<Rightarrow> 'c \<Rightarrow> bool \<times> 'c) \<Rightarrow> 'c \<Rightarrow> (int \<times> 'a iface \<times> bool) list" where
  "visits m f c = snd (Range_osm m (logged f) (c, []))"

text \<open>
  The same calls written as a function of their own: the entries \<^verbatim>\<open>Range\<close> hands to the
  callback, in order, each with the verdict the callback gave. It is shown below to be
  what the logging callback records.
\<close>

fun calls_of ::
  "(int \<Rightarrow> 'a iface \<Rightarrow> 'c \<Rightarrow> bool \<times> 'c) \<Rightarrow> (int \<rightharpoonup> 'a iface) \<Rightarrow> int list \<Rightarrow> 'c \<Rightarrow>
   (int \<times> 'a iface \<times> bool) list" where
  "calls_of f d [] c = []"
| "calls_of f d (k # ks) c =
     (case d k of
        None \<Rightarrow> calls_of f d ks c
      | Some v \<Rightarrow>
          (case f k v c of
             (True, c') \<Rightarrow> (k, v, True) # calls_of f d ks c'
           | (False, c') \<Rightarrow> [(k, v, False)]))"

text \<open>
  The live entries in the order of the key slice: the keys of the slice that have an entry
  in the mapping, each with its value.
\<close>

fun live_list :: "(int \<rightharpoonup> 'a iface) \<Rightarrow> int list \<Rightarrow> (int \<times> 'a iface) list" where
  "live_list d [] = []"
| "live_list d (k # ks) =
     (case d k of None \<Rightarrow> live_list d ks | Some v \<Rightarrow> (k, v) # live_list d ks)"

definition live_entries :: "'a osm \<Rightarrow> (int \<times> 'a iface) list" where
  "live_entries m = live_list (entries (data m)) (keys m)"

subsection \<open>Container invariant and runs of operations\<close>

text \<open>
  The invariant of the data model: the key slice is strictly ascending, it holds exactly
  the keys of the mapping, and \<^verbatim>\<open>keySet\<close> marks exactly those keys, each with \<^verbatim>\<open>true\<close>.
  It speaks of what the maps hold, so the zero value of the struct satisfies it as the
  container of the constructor does.
\<close>

definition osm_inv :: "'a osm \<Rightarrow> bool" where
  "osm_inv m \<longleftrightarrow>
     sorted_wrt (<) (keys m) \<and>
     set (keys m) = dom (entries (data m)) \<and>
     dom (entries (keySet m)) = set (keys m) \<and>
     (\<forall>k\<in>set (keys m). entries (keySet m) k = Some True)"

text \<open>
  The mutating operations called with an \<^verbatim>\<open>int\<close> key, and a run of them on a container
  fresh from \<^verbatim>\<open>NewOrderedSyncMap\<close>.
\<close>

datatype 'a op =
  OpStore int "'a iface"
| OpDelete int
| OpLoadOrStore int "'a iface"
| OpLoadAndDelete int

fun apply_op :: "'a osm \<Rightarrow> 'a op \<Rightarrow> 'a osm" where
  "apply_op m (OpStore k v) = snd (Store m (VInt k) v)"
| "apply_op m (OpDelete k) = snd (Delete m (VInt k))"
| "apply_op m (OpLoadOrStore k v) = snd (LoadOrStore m (VInt k) v)"
| "apply_op m (OpLoadAndDelete k) = snd (LoadAndDelete m (VInt k))"

definition run :: "'a op list \<Rightarrow> 'a osm" where
  "run ops = foldl apply_op NewOrderedSyncMap ops"

subsection \<open>Concurrent callers of LoadOrStore\<close>

text \<open>
  Several goroutines call \<^verbatim>\<open>LoadOrStore(k, v)\<close> on one container, each with its own value.
  A caller is before \<^verbatim>\<open>Lock\<close>, or inside the critical section (about to look the key up,
  about to insert, or about to return and unlock), or it has returned or panicked. The
  callers interleave between any two of these steps.
\<close>

datatype 'a tstate =
  Idle
| Checking
| Inserting
| Returning "'a iface \<times> bool"
| Done "'a iface \<times> bool"
| Panicked panic

text \<open>
  A configuration: the container, the holder of the write lock \<^verbatim>\<open>mu\<close> (if any), and the
  state of each caller. Caller \<open>i\<close> stores the \<open>i\<close>-th value of a list \<open>vs\<close>.
\<close>

record 'a conf =
  shared :: "'a osm"
  mu :: "nat option"
  threads :: "nat \<Rightarrow> 'a tstate"

definition init_conf :: "'a osm \<Rightarrow> 'a conf" where
  "init_conf m = \<lparr>shared = m, mu = None, threads = (\<lambda>i. Idle)\<rparr>"

text \<open>
  One step of caller \<open>i\<close>, in the order of the method body: \<^verbatim>\<open>m.mu.Lock()\<close>, which blocks
  while the lock is held; the lookup \<^verbatim>\<open>m.data[k]\<close>; the insertion into \<^verbatim>\<open>keys\<close>, \<^verbatim>\<open>keySet\<close>
  and \<^verbatim>\<open>data\<close>, which panics at the first assignment to a nil map with the fields written
  so far left as they are; and the deferred \<^verbatim>\<open>m.mu.Unlock()\<close> on return, which also runs
  when the body panics. \<open>None\<close> means the caller cannot move: it is blocked or has
  finished.
\<close>

definition thread_step :: "int \<Rightarrow> 'a iface list \<Rightarrow> nat \<Rightarrow> 'a conf \<Rightarrow> 'a conf option" where
  "thread_step k vs i c =
     (if length vs \<le> i then None
      else case threads c i of
        Idle \<Rightarrow>
          (if mu c = None
           then Some (c\<lparr>mu := Some i, threads := (threads c)(i := Checking)\<rparr>)
           else None)
      | Checking \<Rightarrow>
          (case entries (data (shared c)) k of
             Some v \<Rightarrow> Some (c\<lparr>threads := (threads c)(i := Returning (v, True))\<rparr>)
           | None \<Rightarrow> Some (c\<lparr>threads := (threads c)(i := Inserting)\<rparr>))
      | Inserting \<Rightarrow>
          (case insert_key (keys (shared c)) (SearchInts (keys (shared c)) k) k of
             (Some e, ks) \<Rightarrow>
               Some (c\<lparr>shared := (shared c)\<lparr>keys := ks\<rparr>, mu := None,
                       threads := (threads c)(i := Panicked e)\<rparr>)
           | (None, ks) \<Rightarrow>
               (case map_assign (keySet (shared c)) k True of
                  None \<Rightarrow>
                    Some (c\<lparr>shared := (shared c)\<lparr>keys := ks\<rparr>, mu := None,
                            threads := (threads c)(i := Panicked NilMapAssign)\<rparr>)
                | Some kset \<Rightarrow>
                    (case map_assign (data (shared c)) k (vs ! i) of
                       None \<Rightarrow>
                         Some (c\<lparr>shared := (shared c)\<lparr>keys := ks, keySet := kset\<rparr>,
                                 mu := None,
                                 threads := (threads c)(i := Panicked NilMapAssign)\<rparr>)
                     | Some d \<Rightarrow>
                         Some (c\<lparr>shared := (shared c)\<lparr>keys := ks, keySet := kset,
                                              data := d\<rparr>,
                                 threads := (threads c)(i := Returning (vs ! i, False))\<rparr>))))
      | Returning r \<Rightarrow> Some (c\<lparr>mu := None, threads := (threads c)(i := Done r)\<rparr>)
      | Done r \<Rightarrow> None
      | Panicked e \<Rightarrow> None)"

text \<open>
  An execution follows a schedule, the list of the callers in the order in which they
  move; a schedule that names a caller that cannot move is not an execution.
\<close>

fun exec :: "int \<Rightarrow> 'a iface list \<Rightarrow> nat list \<Rightarrow> 'a conf \<Rightarrow> 'a conf option" where
  "exec k vs [] c = Some c"
| "exec k vs (i # sched) c =
     (case thread_step k vs i c of None \<Rightarrow> None | Some c' \<Rightarrow> exec k vs sched c')"

fun finished :: "'a tstate \<Rightarrow> bool" where
  "finished (Done r) = True"
| "finished (Panicked e) = True"
| "finished Idle = False"
| "finished Checking = False"
| "finished Inserting = False"
| "finished (Returning r) = False"

text \<open>
  How far a caller has got, as a number: every step moves it up, and no caller gets
  beyond 4.
\<close>

fun rank :: "'a tstate \<Rightarrow> nat" where
  "rank Idle = 0"
| "rank Checking = 1"
| "rank Inserting = 2"
| "rank (Returning r) = 3"
| "rank (Done r) = 4"
| "rank (Panicked e) = 4"

definition work :: "'a iface list \<Rightarrow> 'a conf \<Rightarrow> nat" where
  "work vs c = (\<Sum>j<length vs. rank (threads c j))"

text \<open>
  The invariants of the lock: only its holder is inside the critical section (this holds
  on every container, a panic releases the lock); and of the entry for \<open>k\<close>, on a container
  whose maps are made: while it is missing no caller has fixed its result, and once it is
  there it holds the value of one caller, who reports \<open>loaded = false\<close>, while every other
  caller that has looked reports that value with \<open>loaded = true\<close>.
\<close>

fun quiet :: "'a tstate \<Rightarrow> bool" where
  "quiet Idle = True"
| "quiet (Done r) = True"
| "quiet (Panicked e) = True"
| "quiet Checking = False"
| "quiet Inserting = False"
| "quiet (Returning r) = False"

fun in_cs :: "'a tstate \<Rightarrow> bool" where
  "in_cs Checking = True"
| "in_cs Inserting = True"
| "in_cs (Returning r) = True"
| "in_cs Idle = False"
| "in_cs (Done r) = False"
| "in_cs (Panicked e) = False"

definition lock_inv :: "'a iface list \<Rightarrow> 'a conf \<Rightarrow> bool" where
  "lock_inv vs c \<longleftrightarrow>
     (case mu c of
        None \<Rightarrow> (\<forall>i<length vs. quiet (threads c i))
      | Some h \<Rightarrow>
          h < length vs \<and> in_cs (threads c h) \<and>
          (\<forall>i<length vs. i \<noteq> h \<longrightarrow> quiet (threads c i)))"

fun before_win :: "'a tstate \<Rightarrow> bool" where
  "before_win Idle = True"
| "before_win Checking = True"
| "before_win Inserting = True"
| "before_win (Returning r) = False"
| "before_win (Done r) = False"
| "before_win (Panicked e) = False"

fun winner :: "'a iface \<Rightarrow> 'a tstate \<Rightarrow> bool" where
  "winner v (Returning r) = (r = (v, False))"
| "winner v (Done r) = (r = (v, False))"
| "winner v Idle = False"
| "winner v Checking = False"
| "winner v Inserting = False"
| "winner v (Panicked e) = False"

fun loser :: "'a iface \<Rightarrow> 'a tstate \<Rightarrow> bool" where
  "loser v Idle = True"
| "loser v Checking = True"
| "loser v (Returning r) = (r = (v, True))"
| "loser v (Done r) = (r = (v, True))"
| "loser v Inserting = False"
| "loser v (Panicked e) = False"

definition data_inv :: "int \<Rightarrow> 'a iface list \<Rightarrow> 'a conf \<Rightarrow> bool" where
  "data_inv k vs c \<longleftrightarrow>
     (case entries (data (shared c)) k of
        None \<Rightarrow> (\<forall>i<length vs. before_win (threads c i))
      | Some v \<Rightarrow>
          (\<exists>w<length vs. v = vs ! w \<and> winner v (threads c w) \<and>
             (\<forall>i<length vs. i \<noteq> w \<longrightarrow> loser v (threads c i))))"

subsection \<open>Concrete containers\<close>

text \<open>
  The scenario of the specification (store 10, 5, 20, then delete 5) and a container with
  three live keys, one of them holding the nil value.
\<close>

definition scenario :: "string op list" where
  "scenario = [OpStore 10 (VOther ''a''), OpStore 5 (VOther ''b''), OpStore 20 (VOther ''c''),
               OpDelete 5]"

definition example_map :: "string osm" where
  "example_map =
     \<lparr>data = MadeMap [5 \<mapsto> VOther ''b'', 10 \<mapsto> VNil, 20 \<mapsto> VInt 7],
      keys = [5, 10, 20],
      keySet = MadeMap [5 \<mapsto> True, 10 \<mapsto> True, 20 \<mapsto> True]\<rparr>"

text \<open>A callback that counts its calls and stops at the first key that is at least 10.\<close>

definition stop_at_ten :: "int \<Rightarrow> string iface \<Rightarrow> nat \<Rightarrow> bool \<times> nat" where
  "stop_at_ten k v c = (k < 10, c + 1)"

text \<open>A callback that counts its calls and never stops.\<close>

definition count_all :: "int \<Rightarrow> string iface \<Rightarrow> nat \<Rightarrow> bool \<times> nat" where
  "count_all k v c = (True, c + 1)"

text \<open>
  A state that breaks the invariant: key 2 is in the key slice and has no entry in the
  mapping.
\<close>

definition stale_map :: "string osm" where
  "stale_map =
     \<lparr>data = MadeMap [1 \<mapsto> VOther ''x'', 3 \<mapsto> VOther ''z''],
      keys = [1, 2, 3],
      keySet = MadeMap [1 \<mapsto> True, 2 \<mapsto> True, 3 \<mapsto> True]\<rparr>"

text \<open>
  Three callers on the example container, a schedule in which caller 1 gets the lock
  first, the configuration it ends in, and the configuration after its first two steps.
\<close>

definition callers :: "string iface list" where
  "callers = [VOther ''a'', VOther ''b'', VOther ''c'']"

definition serial :: "nat list" where
  "serial = [1, 1, 1, 1, 2, 2, 2, 0, 0, 0]"

definition serial_end :: "string conf" where
  "serial_end =
     \<lparr>shared =
        \<lparr>data = MadeMap [5 \<mapsto> VOther ''b'', 10 \<mapsto> VNil, 20 \<mapsto> VInt 7,
                         7 \<mapsto> VOther ''b''],
         keys = [5, 7, 10, 20],
         keySet = MadeMap [5 \<mapsto> True, 10 \<mapsto> True, 20 \<mapsto> True, 7 \<mapsto> True]\<rparr>,
      mu = None,
      threads = (\<lambda>i. Idle)(1 := Done (VOther ''b'', False), 2 := Done (VOther ''b'', True),
                            0 := Done (VOther ''b'', True))\<rparr>"

definition serial_mid :: "string conf" where
  "serial_mid = \<lparr>shared = example_map, mu = Some 1, threads = (\<lambda>i. Idle)(1 := Inserting)\<rparr>"

text \<open>
  The same three callers on the zero value of the struct, a schedule in which they run one
  after the other, and the configuration it ends in.
\<close>

definition zero_sched :: "nat list" where
  "zero_sched = [0, 0, 0, 1, 1, 1, 2, 2, 2]"

definition zero_end :: "string conf" where
  "zero_end =
     \<lparr>shared = \<lparr>data = NilMap, keys = [7, 7, 7], keySet = NilMap\<rparr>,
      mu = None,
      threads = (\<lambda>i. Idle)(0 := Panicked NilMapAssign, 1 := Panicked NilMapAssign,
                            2 := Panicked NilMapAssign)\<rparr>"

section \<open>The binary search and the two slice updates\<close>

text \<open>The search always returns an index between the bounds it was started with.\<close>

lemma search_loop_bounds:
  "i \<le> j \<Longrightarrow> i \<le> search_loop a x i j \<and> search_loop a x i j \<le> j"
proof (induction a x i j rule: search_loop.induct)
  case (1 a x i j)
  show ?case
  proof (cases "i < j")
    case False
    with "1.prems" show ?thesis by (simp add: search_loop.simps)
  next
    case lt: True
    let ?h = "(i + j) div 2"
    have h: "i \<le> ?h" "?h < j" using lt by auto
    show ?thesis
    proof (cases "a ! ?h < x")
      case True
      from "1.IH"(1)[OF lt True] h have "?h + 1 \<le> search_loop a x (?h + 1) j \<and> search_loop a x (?h + 1) j \<le> j"
        by simp
      moreover have "search_loop a x i j = search_loop a x (?h + 1) j"
        using lt True by (subst search_loop.simps) simp
      ultimately show ?thesis using h by simp
    next
      case False
      from "1.IH"(2)[OF lt False] h have "i \<le> search_loop a x i ?h \<and> search_loop a x i ?h \<le> ?h"
        by simp
      moreover have "search_loop a x i j = search_loop a x i ?h"
        using lt False by (subst search_loop.simps) simp
      ultimately show ?thesis using h by simp
    qed
  qed
qed

lemma SearchInts_le_length: "SearchInts a x \<le> length a"
  using search_loop_bounds [of 0 "length a" a x] by (simp add: SearchInts_def)

lemma search_loop_sorted:
  "sorted a \<Longrightarrow> i \<le> j \<Longrightarrow> j \<le> length a \<Longrightarrow>
   (\<forall>n<i. a ! n < x) \<Longrightarrow> (\<forall>n. j \<le> n \<and> n < length a \<longrightarrow> x \<le> a ! n) \<Longrightarrow>
   (\<forall>n<search_loop a x i j. a ! n < x) \<and>
   (\<forall>n. search_loop a x i j \<le> n \<and> n < length a \<longrightarrow> x \<le> a ! n)"
proof (induction a x i j rule: search_loop.induct)
  case (1 a x i j)
  show ?case
  proof (cases "i < j")
    case False
    with "1.prems" have "search_loop a x i j = i" "i = j" by (simp_all add: search_loop.simps)
    with "1.prems" show ?thesis by simp
  next
    case lt: True
    let ?h = "(i + j) div 2"
    have h: "i \<le> ?h" "?h < j" using lt by auto
    show ?thesis
    proof (cases "a ! ?h < x")
      case True
      have eq: "search_loop a x i j = search_loop a x (?h + 1) j"
        using lt True by (subst search_loop.simps) simp
      have below: "\<forall>n<?h + 1. a ! n < x"
      proof (intro allI impI)
        fix n assume "n < ?h + 1"
        then have "n \<le> ?h" by simp
        moreover have "?h < length a" using h "1.prems"(3) by simp
        ultimately have "a ! n \<le> a ! ?h" using \<open>sorted a\<close> by (simp add: sorted_nth_mono)
        with True show "a ! n < x" by simp
      qed
      from "1.IH"(1)[OF lt True \<open>sorted a\<close> _ "1.prems"(3) below "1.prems"(5)] h
      show ?thesis unfolding eq by simp
    next
      case False
      have eq: "search_loop a x i j = search_loop a x i ?h"
        using lt False by (subst search_loop.simps) simp
      have above: "\<forall>n. ?h \<le> n \<and> n < length a \<longrightarrow> x \<le> a ! n"
      proof (intro allI impI)
        fix n assume "?h \<le> n \<and> n < length a"
        then have "a ! ?h \<le> a ! n" using \<open>sorted a\<close> by (simp add: sorted_nth_mono)
        with False show "x \<le> a ! n" by simp
      qed
      have "?h \<le> length a" using h "1.prems"(3) by simp
      from "1.IH"(2)[OF lt False \<open>sorted a\<close> h(1) this "1.prems"(4) above]
      show ?thesis unfolding eq by simp
    qed
  qed
qed

lemma SearchInts_sorted:
  assumes "sorted a"
  shows "(\<forall>n<SearchInts a x. a ! n < x) \<and> (\<forall>n. SearchInts a x \<le> n \<and> n < length a \<longrightarrow> x \<le> a ! n)"
  using search_loop_sorted [OF assms, of 0 "length a" x] by (simp add: SearchInts_def)

text \<open>
  With an index inside the slice, append, copy and assignment insert the key at that index;
  the search always returns such an index, so the insertion never panics.
\<close>

lemma copy_shift:
  assumes "pos \<le> length ks"
  shows "copy_slice (ks @ [z]) (Suc pos) (drop pos (ks @ [z])) = take pos ks @ (ks @ [z]) ! pos # drop pos ks"
proof -
  have "min (length (ks @ [z]) - Suc pos) (length (drop pos (ks @ [z]))) = length ks - pos"
    by simp
  then have "copy_slice (ks @ [z]) (Suc pos) (drop pos (ks @ [z])) =
      take (Suc pos) (ks @ [z]) @ take (length ks - pos) (drop pos (ks @ [z])) @
      drop (Suc pos + (length ks - pos)) (ks @ [z])"
    unfolding copy_slice_def Let_def by (simp only:)
  also have "take (length ks - pos) (drop pos (ks @ [z])) = drop pos ks"
    using assms by simp
  also have "drop (Suc pos + (length ks - pos)) (ks @ [z]) = []"
    using assms by simp
  also have "take (Suc pos) (ks @ [z]) = take pos (ks @ [z]) @ [(ks @ [z]) ! pos]"
    using assms by (intro take_Suc_conv_app_nth) simp
  also have "take pos (ks @ [z]) = take pos ks"
    using assms by simp
  finally show ?thesis by simp
qed

lemma insert_key_eq:
  assumes "pos \<le> length ks"
  shows "insert_key ks pos k = (None, take pos ks @ k # drop pos ks)"
proof -
  have "(take pos ks @ (ks @ [0]) ! pos # drop pos ks)[pos := k] = take pos ks @ k # drop pos ks"
    using assms by (simp add: list_update_append)
  moreover have "\<not> length (ks @ [0]) < pos + 1"
    using assms by simp
  ultimately show ?thesis
    unfolding insert_key_def Let_def using copy_shift [OF assms, of 0] by (simp only: Suc_eq_plus1 if_False)
qed

text \<open>On a sorted slice the search splits it into the keys below and the keys not below.\<close>

lemma SearchInts_take:
  assumes "sorted ks"
  shows "\<forall>y\<in>set (take (SearchInts ks k) ks). y < k"
proof
  fix y assume "y \<in> set (take (SearchInts ks k) ks)"
  then obtain n where "n < length (take (SearchInts ks k) ks)" "take (SearchInts ks k) ks ! n = y"
    by (auto simp: in_set_conv_nth)
  then have "n < SearchInts ks k" "ks ! n = y" by simp_all
  with SearchInts_sorted [OF assms, of k] show "y < k" by blast
qed

lemma SearchInts_drop:
  assumes "sorted ks"
  shows "\<forall>y\<in>set (drop (SearchInts ks k) ks). k \<le> y"
proof
  fix y assume "y \<in> set (drop (SearchInts ks k) ks)"
  then obtain n where n: "n < length (drop (SearchInts ks k) ks)" "drop (SearchInts ks k) ks ! n = y"
    by (auto simp: in_set_conv_nth)
  then have "SearchInts ks k + n < length ks" "ks ! (SearchInts ks k + n) = y"
    by simp_all
  with SearchInts_sorted [OF assms, of k] show "k \<le> y" by (metis le_add1)
qed

lemma insert_sorted:
  assumes s: "sorted_wrt (<) ks" and nin: "k \<notin> set ks"
  defines "p \<equiv> SearchInts ks k"
  shows "sorted_wrt (<) (take p ks @ k # drop p ks)"
proof -
  have srt: "sorted ks" using s by (rule strict_sorted_imp_sorted)
  have lo: "\<forall>y\<in>set (take p ks). y < k"
    unfolding p_def by (rule SearchInts_take [OF srt])
  have "\<forall>y\<in>set (drop p ks). k \<le> y"
    unfolding p_def by (rule SearchInts_drop [OF srt])
  moreover have "\<forall>y\<in>set (drop p ks). y \<noteq> k"
    using nin by (auto dest: in_set_dropD)
  ultimately have hi: "\<forall>y\<in>set (drop p ks). k < y" by force
  have "sorted_wrt (<) (take p ks @ drop p ks)" using s by simp
  then have parts: "sorted_wrt (<) (take p ks)" "sorted_wrt (<) (drop p ks)"
    by (simp_all only: sorted_wrt_append)
  from lo hi have "\<forall>x\<in>set (take p ks). \<forall>y\<in>set (drop p ks). x < y" by force
  with parts lo hi show ?thesis by (simp add: sorted_wrt_append)
qed

lemma set_insert_at: "set (take p ks @ k # drop p ks) = insert k (set ks)"
proof -
  have "set (take p ks @ k # drop p ks) = insert k (set (take p ks @ drop p ks))"
    by (simp only: set_append set_simps) blast
  then show ?thesis by simp
qed

text \<open>A key of a strictly ascending slice is found at the index the search returns.\<close>

lemma SearchInts_finds:
  assumes s: "sorted_wrt (<) ks" and mem: "k \<in> set ks"
  defines "p \<equiv> SearchInts ks k"
  shows "p < length ks \<and> ks ! p = k"
proof -
  have srt: "sorted ks" using s by (rule strict_sorted_imp_sorted)
  have "k \<in> set (take p ks) \<union> set (drop p ks)"
    using mem by (metis append_take_drop_id set_append)
  moreover have "k \<notin> set (take p ks)"
    using SearchInts_take [OF srt, of k] unfolding p_def by auto
  ultimately have kd: "k \<in> set (drop p ks)" by simp
  then have lt: "p < length ks" by (cases "p < length ks") auto
  from kd obtain i where i: "i < length (drop p ks)" "drop p ks ! i = k"
    unfolding in_set_conv_nth by blast
  define n where "n = i"
  have n: "p + n < length ks" "ks ! (p + n) = k"
    using i lt unfolding n_def by simp_all
  have "ks ! p \<le> ks ! (p + n)" using srt n(1) by (simp add: sorted_nth_mono)
  moreover have "k \<le> ks ! p"
    using SearchInts_sorted [OF srt, of k] lt unfolding p_def by simp
  ultimately show ?thesis using lt n(2) by simp
qed

lemma remove_key_sorted:
  assumes s: "sorted_wrt (<) ks" and mem: "k \<in> set ks"
  shows "sorted_wrt (<) (remove_key ks (SearchInts ks k) k) \<and>
         set (remove_key ks (SearchInts ks k) k) = set ks - {k} \<and>
         Suc (length (remove_key ks (SearchInts ks k) k)) = length ks"
proof -
  let ?p = "SearchInts ks k"
  from SearchInts_finds [OF s mem] have p: "?p < length ks" "ks ! ?p = k" by simp_all
  then have rk: "remove_key ks ?p k = take ?p ks @ drop (Suc ?p) ks"
    by (simp add: remove_key_def)
  have split: "ks = take ?p ks @ k # drop (Suc ?p) ks"
    using id_take_nth_drop [OF p(1)] p(2) by simp
  then have s': "sorted_wrt (<) (take ?p ks @ k # drop (Suc ?p) ks)" using s by simp
  then have 1: "sorted_wrt (<) (take ?p ks @ drop (Suc ?p) ks)"
    by (simp add: sorted_wrt_append)
  from s' have "k \<notin> set (take ?p ks)" "k \<notin> set (drop (Suc ?p) ks)"
    by (auto simp: sorted_wrt_append)
  moreover have "set ks = set (take ?p ks) \<union> {k} \<union> set (drop (Suc ?p) ks)"
    by (subst split) (simp only: set_append set_simps, blast)
  ultimately have 2: "set (take ?p ks @ drop (Suc ?p) ks) = set ks - {k}"
    by auto
  have 3: "Suc (length (take ?p ks @ drop (Suc ?p) ks)) = length ks"
    using p(1) by simp
  from 1 2 3 show ?thesis unfolding rk by simp
qed

section \<open>Go maps\<close>

text \<open>Assignment succeeds exactly on a made map; deletion is total and keeps a nil map nil.\<close>

lemma assign_made: "is_made g \<Longrightarrow> map_assign g k v = Some (MadeMap ((entries g)(k \<mapsto> v)))"
  by (cases g) simp_all

lemma assign_nil: "\<not> is_made g \<Longrightarrow> map_assign g k v = None"
  by (cases g) simp_all

lemma entries_delete: "entries (map_delete g k) = (entries g)(k := None)"
  by (cases g) simp_all

lemma is_made_delete: "is_made (map_delete g k) = is_made g"
  by (cases g) simp_all

lemma delete_absent: "entries g k = None \<Longrightarrow> map_delete g k = g"
  by (cases g) (simp_all add: fun_upd_idem)

lemma entries_Some_made: "entries g k = Some v \<Longrightarrow> is_made g"
  by (cases g) simp_all

section \<open>The invariant is kept by every operation\<close>

text \<open>Under the invariant the three fields agree on which keys are live.\<close>

lemma inv_keySet_get:
  assumes "osm_inv m"
  shows "keySet_get (keySet m) k = (k \<in> set (keys m))"
proof (cases "k \<in> set (keys m)")
  case True
  with assms have "entries (keySet m) k = Some True" by (simp add: osm_inv_def)
  with True show ?thesis by (simp add: keySet_get_def)
next
  case False
  with assms have "k \<notin> dom (entries (keySet m))" by (simp add: osm_inv_def)
  then have "entries (keySet m) k = None" by (simp add: domIff)
  with False show ?thesis by (simp add: keySet_get_def)
qed

lemma inv_data_None: "osm_inv m \<Longrightarrow> (entries (data m) k = None) = (k \<notin> set (keys m))"
  unfolding osm_inv_def by auto

text \<open>
  What Store and LoadOrStore do in each branch, in closed form, on a container whose maps
  are made; and that Store returns normally on no other container.
\<close>

lemma insert_key_search:
  "insert_key ks (SearchInts ks k) k =
     (None, take (SearchInts ks k) ks @ k # drop (SearchInts ks k) ks)"
  by (rule insert_key_eq [OF SearchInts_le_length])

lemma Store_absent:
  "\<not> keySet_get (keySet m) k \<Longrightarrow> made m \<Longrightarrow>
   Store m (VInt k) v =
     (Inr (),
      m\<lparr>keys := take (SearchInts (keys m) k) (keys m) @ k # drop (SearchInts (keys m) k) (keys m),
        keySet := MadeMap ((entries (keySet m))(k \<mapsto> True)),
        data := MadeMap ((entries (data m))(k \<mapsto> v))\<rparr>)"
  by (simp add: Store_def insert_key_search made_def assign_made)

lemma Store_present:
  "keySet_get (keySet m) k \<Longrightarrow> is_made (data m) \<Longrightarrow>
   Store m (VInt k) v = (Inr (), m\<lparr>data := MadeMap ((entries (data m))(k \<mapsto> v))\<rparr>)"
  by (simp add: Store_def assign_made)

lemma Store_keys_absent:
  "\<not> keySet_get (keySet m) k \<Longrightarrow>
   keys (snd (Store m (VInt k) v)) =
     take (SearchInts (keys m) k) (keys m) @ k # drop (SearchInts (keys m) k) (keys m)"
  by (simp add: Store_def insert_key_search split: option.split)

lemma Store_data_others:
  "j \<noteq> k \<Longrightarrow> entries (data (snd (Store m (VInt k) v))) j = entries (data m) j"
  by (cases "data m") (simp_all add: Store_def insert_key_search split: option.split)

lemma Store_nil_panics: "\<not> made m \<Longrightarrow> fst (Store m (VInt k) v) = Inl NilMapAssign"
proof (cases "is_made (keySet m)")
  case False
  then have "\<not> keySet_get (keySet m) k" by (cases "keySet m") (simp_all add: keySet_get_def)
  with False show ?thesis by (simp add: Store_def insert_key_search assign_nil)
next
  case True
  assume "\<not> made m"
  with True have "\<not> is_made (data m)" by (simp add: made_def)
  then show ?thesis by (simp add: Store_def insert_key_search assign_nil split: option.split)
qed

lemma Store_made_returns: "made m \<Longrightarrow> fst (Store m (VInt k) v) = Inr ()"
  by (cases "keySet_get (keySet m) k") (simp_all add: Store_absent Store_present made_def)

lemma LoadOrStore_absent:
  "entries (data m) k = None \<Longrightarrow> made m \<Longrightarrow>
   LoadOrStore m (VInt k) v =
     (Inr (v, False),
      m\<lparr>keys := take (SearchInts (keys m) k) (keys m) @ k # drop (SearchInts (keys m) k) (keys m),
        keySet := MadeMap ((entries (keySet m))(k \<mapsto> True)),
        data := MadeMap ((entries (data m))(k \<mapsto> v))\<rparr>)"
  by (simp add: LoadOrStore_def insert_key_search made_def assign_made)

lemma LoadOrStore_present:
  "entries (data m) k = Some w \<Longrightarrow> LoadOrStore m (VInt k) v = (Inr (w, True), m)"
  by (simp add: LoadOrStore_def)

text \<open>The three kinds of update keep the invariant, and so does every operation.\<close>

lemma inv_insert:
  assumes "osm_inv m" and "k \<notin> set (keys m)"
  shows "osm_inv
     (m\<lparr>keys := take (SearchInts (keys m) k) (keys m) @ k # drop (SearchInts (keys m) k) (keys m),
        keySet := MadeMap ((entries (keySet m))(k \<mapsto> True)),
        data := MadeMap ((entries (data m))(k \<mapsto> v))\<rparr>)"
proof -
  from assms
  have "sorted_wrt (<)
     (take (SearchInts (keys m) k) (keys m) @ k # drop (SearchInts (keys m) k) (keys m))"
    by (intro insert_sorted) (simp_all add: osm_inv_def)
  moreover note set_insert_at [of "SearchInts (keys m) k" "keys m" k]
  ultimately show ?thesis using assms(1) unfolding osm_inv_def by auto
qed

lemma inv_overwrite:
  assumes "osm_inv m" and "k \<in> set (keys m)"
  shows "osm_inv (m\<lparr>data := MadeMap ((entries (data m))(k \<mapsto> v))\<rparr>)"
  using assms unfolding osm_inv_def by auto

lemma inv_remove:
  assumes "osm_inv m" and "k \<in> set (keys m)"
  shows "osm_inv (m\<lparr>keys := remove_key (keys m) (SearchInts (keys m) k) k,
                    keySet := map_delete (keySet m) k, data := map_delete (data m) k\<rparr>)"
proof -
  from assms have "sorted_wrt (<) (keys m)" by (simp add: osm_inv_def)
  from remove_key_sorted [OF this assms(2)] assms(1) show ?thesis
    unfolding osm_inv_def by (auto simp: entries_delete)
qed

lemma Store_inv: "osm_inv m \<Longrightarrow> made m \<Longrightarrow> osm_inv (snd (Store m (VInt k) v))"
  by (cases "keySet_get (keySet m) k")
     (simp_all add: Store_absent Store_present inv_insert inv_overwrite inv_keySet_get made_def)

lemma Store_made: "made m \<Longrightarrow> made (snd (Store m (VInt k) v))"
  by (cases "keySet_get (keySet m) k") (simp_all add: Store_absent Store_present made_def)

lemma LoadOrStore_inv: "osm_inv m \<Longrightarrow> made m \<Longrightarrow> osm_inv (snd (LoadOrStore m (VInt k) v))"
  by (cases "entries (data m) k")
     (simp_all add: LoadOrStore_absent LoadOrStore_present inv_insert inv_data_None)

lemma LoadOrStore_made: "made m \<Longrightarrow> made (snd (LoadOrStore m (VInt k) v))"
  by (cases "entries (data m) k")
     (simp_all add: LoadOrStore_absent LoadOrStore_present made_def)

lemma Delete_inv: "osm_inv m \<Longrightarrow> osm_inv (snd (Delete m (VInt k)))"
  by (cases "keySet_get (keySet m) k") (simp_all add: Delete_def inv_remove inv_keySet_get)

lemma Delete_made: "made m \<Longrightarrow> made (snd (Delete m (VInt k)))"
  by (simp add: Delete_def made_def is_made_delete)

lemma LoadAndDelete_inv: "osm_inv m \<Longrightarrow> osm_inv (snd (LoadAndDelete m (VInt k)))"
proof (cases "entries (data m) k")
  case None
  assume "osm_inv m"
  with None show ?thesis by (simp add: LoadAndDelete_def)
next
  case (Some w)
  assume inv: "osm_inv m"
  with Some have "k \<in> set (keys m)" using inv_data_None [OF inv, of k] by simp
  with inv Some show ?thesis by (simp add: LoadAndDelete_def inv_remove)
qed

lemma LoadAndDelete_made: "made m \<Longrightarrow> made (snd (LoadAndDelete m (VInt k)))"
  by (simp add: LoadAndDelete_def made_def is_made_delete split: option.split)

lemma New_inv: "osm_inv NewOrderedSyncMap \<and> made NewOrderedSyncMap"
  by (simp add: osm_inv_def made_def NewOrderedSyncMap_def)

lemma apply_op_inv:
  "osm_inv m \<and> made m \<Longrightarrow> osm_inv (apply_op m x) \<and> made (apply_op m x)"
  by (cases x)
     (simp_all add: Store_inv Delete_inv LoadOrStore_inv LoadAndDelete_inv
        Store_made Delete_made LoadOrStore_made LoadAndDelete_made)

lemma foldl_inv:
  "osm_inv m \<and> made m \<Longrightarrow> osm_inv (foldl apply_op m ops) \<and> made (foldl apply_op m ops)"
proof (induction ops arbitrary: m)
  case Nil
  then show ?case by simp
next
  case (Cons x ops)
  from Cons.prems have "osm_inv (apply_op m x) \<and> made (apply_op m x)" by (rule apply_op_inv)
  then show ?case using Cons.IH by simp
qed

lemma run_inv: "osm_inv (run ops) \<and> made (run ops)"
  unfolding run_def by (rule foldl_inv [OF New_inv])

text \<open>Under the invariant \<^verbatim>\<open>Len\<close> is the length of the key slice.\<close>

lemma inv_Len:
  assumes "osm_inv m" shows "Len m = int (length (keys m))"
proof -
  from assms have "distinct (keys m)" by (simp add: osm_inv_def strict_sorted_iff)
  then have "card (set (keys m)) = length (keys m)" by (rule distinct_card)
  with assms show ?thesis by (simp add: Len_def osm_inv_def)
qed

text \<open>
  The concrete containers: the example and the zero value satisfy the invariant, and the
  scenario of the specification ends with the keys 10 and 20.
\<close>

text \<open>The defining equations needed to run the operations on a concrete container.\<close>

lemmas eval_defs =
  NewOrderedSyncMap_def Store_def Load_def Delete_def LoadOrStore_def LoadAndDelete_def
  keySet_get_def insert_key_def copy_slice_def remove_key_def SearchInts_def search_loop.simps
  Len_def

lemma example_inv: "osm_inv example_map"
  by (auto simp add: osm_inv_def example_map_def)

lemma example_made: "made example_map"
  by (simp add: made_def example_map_def)

lemma zero_inv: "osm_inv zero_osm"
  by (simp add: osm_inv_def zero_osm_def)

lemma run_scenario:
  "run scenario =
     \<lparr>data = MadeMap [10 \<mapsto> VOther ''a'', 20 \<mapsto> VOther ''c''],
      keys = [10, 20],
      keySet = MadeMap [10 \<mapsto> True, 20 \<mapsto> True]\<rparr>"
  by (simp add: scenario_def run_def eval_defs fun_upd_twist)

text \<open>On a strictly ascending slice the removal takes out the one occurrence of the key.\<close>

lemma remove_key_remove1:
  assumes s: "sorted_wrt (<) ks" and mem: "k \<in> set ks"
  shows "remove_key ks (SearchInts ks k) k = remove1 k ks"
proof -
  let ?p = "SearchInts ks k"
  from SearchInts_finds [OF s mem] have p: "?p < length ks" "ks ! ?p = k" by simp_all
  then have rk: "remove_key ks ?p k = take ?p ks @ drop (Suc ?p) ks"
    by (simp add: remove_key_def)
  have split: "ks = take ?p ks @ k # drop (Suc ?p) ks"
    using id_take_nth_drop [OF p(1)] p(2) by simp
  have "k \<notin> set (take ?p ks)"
    using SearchInts_take [OF strict_sorted_imp_sorted [OF s], of k] by auto
  then have "remove1 k (take ?p ks @ k # drop (Suc ?p) ks) = take ?p ks @ drop (Suc ?p) ks"
    by (simp add: remove1_append)
  with split rk show ?thesis by simp
qed

section \<open>The calls made by Range\<close>

text \<open>
  The logging callback records exactly \<open>calls_of\<close> and leaves the run of the callback as
  it is.
\<close>

lemma range_loop_logged:
  "range_loop (logged f) d ks (c, l) = (range_loop f d ks c, l @ calls_of f d ks c)"
proof (induction ks arbitrary: c l)
  case Nil
  show ?case by simp
next
  case (Cons k ks)
  show ?case
  proof (cases "d k")
    case None
    then show ?thesis by (simp add: Cons.IH)
  next
    case (Some v)
    obtain b c' where fk: "f k v c = (b, c')" by (cases "f k v c")
    then have "logged f k v (c, l) = (b, c', l @ [(k, v, b)])" by (simp add: logged_def)
    with Some fk show ?thesis by (cases b) (simp_all add: Cons.IH)
  qed
qed

lemma visits_calls: "visits m f c = calls_of f (entries (data m)) (keys m) c"
  by (simp add: visits_def Range_osm_def range_loop_logged)

lemma Range_logged: "fst (Range_osm m (logged f) (c, [])) = Range_osm m f c"
  by (simp add: Range_osm_def range_loop_logged)

text \<open>
  The calls are an initial segment of the live entries; only the last verdict can be false;
  with no false verdict all live entries are visited.
\<close>

lemma calls_prefix:
  "prefix (map (\<lambda>e. (fst e, fst (snd e))) (calls_of f d ks c)) (live_list d ks)"
proof (induction ks arbitrary: c)
  case Nil
  show ?case by simp
next
  case (Cons k ks)
  show ?case
  proof (cases "d k")
    case None
    then show ?thesis by (simp add: Cons.IH)
  next
    case (Some v)
    obtain b c' where fk: "f k v c = (b, c')" by (cases "f k v c")
    with Some show ?thesis by (cases b) (simp_all add: Cons.IH)
  qed
qed

lemma calls_butlast:
  "\<forall>e\<in>set (butlast (calls_of f d ks c)). snd (snd e)"
proof (induction ks arbitrary: c)
  case Nil
  show ?case by simp
next
  case (Cons k ks)
  show ?case
  proof (cases "d k")
    case None
    then show ?thesis using Cons.IH by simp
  next
    case (Some v)
    obtain b c' where fk: "f k v c = (b, c')" by (cases "f k v c")
    with Some show ?thesis using Cons.IH [of c'] by (cases b) (auto split: if_splits)
  qed
qed

lemma calls_all_true:
  "\<forall>e\<in>set (calls_of f d ks c). snd (snd e) \<Longrightarrow>
   map (\<lambda>e. (fst e, fst (snd e))) (calls_of f d ks c) = live_list d ks"
proof (induction ks arbitrary: c)
  case Nil
  show ?case by simp
next
  case (Cons k ks)
  show ?case
  proof (cases "d k")
    case None
    then show ?thesis using Cons by simp
  next
    case (Some v)
    obtain b c' where fk: "f k v c = (b, c')" by (cases "f k v c")
    with Some Cons.prems have b by (cases b) simp_all
    with Some fk Cons.prems have "\<forall>e\<in>set (calls_of f d ks c'). snd (snd e)" by simp
    from Cons.IH [OF this] Some fk \<open>b\<close> show ?thesis by simp
  qed
qed

lemma live_list_keys: "map fst (live_list d ks) = filter (\<lambda>k. d k \<noteq> None) ks"
  by (induction ks) (auto split: option.split)

lemma live_list_sound: "(k, v) \<in> set (live_list d ks) \<Longrightarrow> d k = Some v \<and> k \<in> set ks"
  by (induction ks) (auto split: option.splits)

lemma live_list_complete: "k \<in> set ks \<Longrightarrow> d k = Some v \<Longrightarrow> (k, v) \<in> set (live_list d ks)"
  by (induction ks) (auto split: option.splits)

lemma live_list_all: "set ks \<subseteq> dom d \<Longrightarrow> map fst (live_list d ks) = ks"
  by (induction ks) (auto split: option.split)

lemma visited_keys_sorted:
  assumes "sorted_wrt (<) ks"
  shows "sorted_wrt (<) (map fst (calls_of f d ks c))"
proof -
  have "sorted_wrt (<) (filter (\<lambda>k. d k \<noteq> None) ks)"
    using assms by (rule sorted_wrt_filter)
  then have "sorted_wrt (<) (map fst (live_list d ks))" by (simp only: live_list_keys)
  moreover have "prefix (map fst (map (\<lambda>e. (fst e, fst (snd e))) (calls_of f d ks c)))
     (map fst (live_list d ks))"
    using calls_prefix by (rule map_mono_prefix)
  then have "prefix (map fst (calls_of f d ks c)) (map fst (live_list d ks))"
    by (simp add: comp_def)
  ultimately show ?thesis by (auto simp: prefix_def sorted_wrt_append)
qed

lemma example_visits:
  "visits example_map stop_at_ten 0 = [(5, VOther ''b'', True), (10, VNil, False)]"
  by (simp add: visits_def Range_osm_def example_map_def logged_def stop_at_ten_def)

lemma example_live:
  "live_entries example_map = [(5, VOther ''b''), (10, VNil), (20, VInt 7)]"
  by (simp add: live_entries_def example_map_def)

lemma example_visits_all:
  "visits example_map count_all 0 = [(5, VOther ''b'', True), (10, VNil, True), (20, VInt 7, True)]"
  by (simp add: visits_def Range_osm_def example_map_def logged_def count_all_def)

lemma stale_visits:
  "visits stale_map count_all 0 = [(1, VOther ''x'', True), (3, VOther ''z'', True)]"
  by (simp add: visits_def Range_osm_def stale_map_def logged_def count_all_def)

lemma stale_live: "live_entries stale_map = [(1, VOther ''x''), (3, VOther ''z'')]"
  by (simp add: live_entries_def stale_map_def)

lemma store_nil_example:
  "snd (Store example_map (VInt 7) VNil) =
     \<lparr>data = MadeMap [5 \<mapsto> VOther ''b'', 10 \<mapsto> VNil, 20 \<mapsto> VInt 7, 7 \<mapsto> VNil],
      keys = [5, 7, 10, 20],
      keySet = MadeMap [5 \<mapsto> True, 10 \<mapsto> True, 20 \<mapsto> True, 7 \<mapsto> True]\<rparr>"
  by (simp add: example_map_def eval_defs)

text \<open>On the zero value of the struct an inserting call panics after writing the slice.\<close>

lemma store_zero:
  "Store zero_osm (VInt k) v = (Inl NilMapAssign, zero_osm\<lparr>keys := [k]\<rparr>)"
  by (simp add: zero_osm_def eval_defs)

lemma load_or_store_zero:
  "LoadOrStore zero_osm (VInt k) v = (Inl NilMapAssign, zero_osm\<lparr>keys := [k]\<rparr>)"
  by (simp add: zero_osm_def eval_defs)

section \<open>Callers under the lock\<close>

text \<open>Whoever is inside the critical section holds the lock.\<close>

lemma holder:
  assumes "lock_inv vs c" "i < length vs" "in_cs (threads c i)"
  shows "mu c = Some i"
proof (cases "mu c")
  case None
  with assms have "quiet (threads c i)" by (simp add: lock_inv_def)
  with assms(3) show ?thesis by (cases "threads c i") simp_all
next
  case (Some h)
  show ?thesis
  proof (cases "i = h")
    case True with Some show ?thesis by simp
  next
    case False
    with Some assms have "quiet (threads c i)" by (simp add: lock_inv_def)
    with assms(3) show ?thesis by (cases "threads c i") simp_all
  qed
qed

lemma others_quiet:
  assumes "lock_inv vs c" "mu c = Some i" "j < length vs" "j \<noteq> i"
  shows "quiet (threads c j)"
  using assms by (simp add: lock_inv_def)

lemma init_lock_inv: "lock_inv vs (init_conf m)"
  by (simp add: lock_inv_def init_conf_def)

lemma init_data_inv: "entries (data m) k = None \<Longrightarrow> data_inv k vs (init_conf m)"
  by (simp add: data_inv_def init_conf_def)

text \<open>Every step of a caller keeps the invariant of the lock.\<close>

lemma step_lock_inv:
  assumes inv: "lock_inv vs c" and st: "thread_step k vs i c = Some c'"
  shows "lock_inv vs c'"
proof -
  from st have i: "i < length vs" by (simp add: thread_step_def split: if_splits)
  show ?thesis
  proof (cases "threads c i")
    case Idle
    with st i have mu: "mu c = None"
      and c': "c' = c\<lparr>mu := Some i, threads := (threads c)(i := Checking)\<rparr>"
      by (auto simp: thread_step_def split: if_splits)
    from inv mu have "\<forall>j<length vs. quiet (threads c j)" by (simp add: lock_inv_def)
    with i show ?thesis unfolding c' by (simp add: lock_inv_def)
  next
    case Checking
    then have h: "mu c = Some i" using holder [OF inv i] by simp
    have "\<exists>t. in_cs t \<and> c' = c\<lparr>threads := (threads c)(i := t)\<rparr>"
    proof (cases "entries (data (shared c)) k")
      case None
      with st i Checking have "c' = c\<lparr>threads := (threads c)(i := Inserting)\<rparr>"
        by (simp add: thread_step_def)
      then show ?thesis using in_cs.simps(2) by blast
    next
      case (Some v)
      with st i Checking have "c' = c\<lparr>threads := (threads c)(i := Returning (v, True))\<rparr>"
        by (simp add: thread_step_def)
      then show ?thesis using in_cs.simps(3) by blast
    qed
    then obtain t where t: "in_cs t" and c': "c' = c\<lparr>threads := (threads c)(i := t)\<rparr>"
      by blast
    from inv h t i show ?thesis unfolding c' by (simp add: lock_inv_def)
  next
    case Inserting
    then have h: "mu c = Some i" using holder [OF inv i] by simp
    from st i Inserting have
      "(\<exists>m'. c' = c\<lparr>shared := m', threads := (threads c)(i := Returning (vs ! i, False))\<rparr>) \<or>
       (\<exists>m' e. c' = c\<lparr>shared := m', mu := None, threads := (threads c)(i := Panicked e)\<rparr>)"
      by (auto simp: thread_step_def insert_key_search split: option.splits)
    then show ?thesis
    proof
      assume "\<exists>m'. c' = c\<lparr>shared := m', threads := (threads c)(i := Returning (vs ! i, False))\<rparr>"
      then obtain m' where
        c': "c' = c\<lparr>shared := m', threads := (threads c)(i := Returning (vs ! i, False))\<rparr>"
        by blast
      from inv h i show ?thesis unfolding c' by (simp add: lock_inv_def)
    next
      assume "\<exists>m' e. c' = c\<lparr>shared := m', mu := None, threads := (threads c)(i := Panicked e)\<rparr>"
      then obtain m' e where
        c': "c' = c\<lparr>shared := m', mu := None, threads := (threads c)(i := Panicked e)\<rparr>"
        by blast
      from inv h i show ?thesis unfolding c' by (simp add: lock_inv_def)
    qed
  next
    case (Returning r)
    then have h: "mu c = Some i" using holder [OF inv i] by simp
    from st i Returning have c': "c' = c\<lparr>mu := None, threads := (threads c)(i := Done r)\<rparr>"
      by (auto simp: thread_step_def)
    from inv h i show ?thesis unfolding c' by (simp add: lock_inv_def)
  next
    case (Done r)
    with st i show ?thesis by (simp add: thread_step_def)
  next
    case (Panicked e)
    with st i show ?thesis by (simp add: thread_step_def)
  qed
qed

text \<open>
  On a container whose maps are made the insertion step does not panic, and the maps stay
  made.
\<close>

lemma insert_step:
  assumes "made (shared c)" and "i < length vs" and "threads c i = Inserting"
  shows "thread_step k vs i c =
     Some (c\<lparr>shared := (shared c)
              \<lparr>keys := take (SearchInts (keys (shared c)) k) (keys (shared c)) @
                        k # drop (SearchInts (keys (shared c)) k) (keys (shared c)),
               keySet := MadeMap ((entries (keySet (shared c)))(k \<mapsto> True)),
               data := MadeMap ((entries (data (shared c)))(k \<mapsto> vs ! i))\<rparr>,
             threads := (threads c)(i := Returning (vs ! i, False))\<rparr>)"
  using assms by (simp add: thread_step_def insert_key_search made_def assign_made)

lemma step_made:
  assumes mk: "made (shared c)" and st: "thread_step k vs i c = Some c'"
  shows "made (shared c')"
proof -
  from st have i: "i < length vs" by (simp add: thread_step_def split: if_splits)
  show ?thesis
  proof (cases "threads c i")
    case Idle
    with st i mk show ?thesis by (auto simp: thread_step_def split: if_splits)
  next
    case Checking
    with st i mk show ?thesis by (auto simp: thread_step_def split: option.splits)
  next
    case Inserting
    with st insert_step [OF mk i Inserting, of k] show ?thesis by (auto simp: made_def)
  next
    case (Returning r)
    with st i mk show ?thesis by (auto simp: thread_step_def)
  next
    case (Done r)
    with st i show ?thesis by (simp add: thread_step_def)
  next
    case (Panicked e)
    with st i show ?thesis by (simp add: thread_step_def)
  qed
qed

text \<open>On a container whose maps are made, every step keeps the invariant of the entry.\<close>

lemma step_data_inv:
  assumes linv: "lock_inv vs c" and inv: "data_inv k vs c" and mk: "made (shared c)"
    and st: "thread_step k vs i c = Some c'"
  shows "data_inv k vs c'"
proof -
  from st have i: "i < length vs" by (simp add: thread_step_def split: if_splits)
  show ?thesis
  proof (cases "threads c i")
    case Idle
    with st i have c': "c' = c\<lparr>mu := Some i, threads := (threads c)(i := Checking)\<rparr>"
      by (auto simp: thread_step_def split: if_splits)
    show ?thesis
    proof (cases "entries (data (shared c)) k")
      case None
      with inv show ?thesis unfolding c' by (simp add: data_inv_def)
    next
      case (Some v)
      with inv obtain w where w: "w < length vs" "v = vs ! w" "winner v (threads c w)"
        "\<forall>j<length vs. j \<noteq> w \<longrightarrow> loser v (threads c j)"
        by (auto simp: data_inv_def)
      from w(3) Idle have "i \<noteq> w" by auto
      with w Some show ?thesis unfolding c' data_inv_def by auto
    qed
  next
    case Checking
    show ?thesis
    proof (cases "entries (data (shared c)) k")
      case None
      with st i Checking have c': "c' = c\<lparr>threads := (threads c)(i := Inserting)\<rparr>"
        by (simp add: thread_step_def)
      from None inv show ?thesis unfolding c' by (simp add: data_inv_def)
    next
      case (Some v)
      with st i Checking have c': "c' = c\<lparr>threads := (threads c)(i := Returning (v, True))\<rparr>"
        by (simp add: thread_step_def)
      from Some inv obtain w where w: "w < length vs" "v = vs ! w" "winner v (threads c w)"
        "\<forall>j<length vs. j \<noteq> w \<longrightarrow> loser v (threads c j)"
        by (auto simp: data_inv_def)
      from w(3) Checking have "i \<noteq> w" by auto
      with w Some show ?thesis unfolding c' data_inv_def by auto
    qed
  next
    case Inserting
    then have h: "mu c = Some i" using holder [OF linv i] by simp
    from st insert_step [OF mk i Inserting, of k] have
      c': "c' = c\<lparr>shared := (shared c)
              \<lparr>keys := take (SearchInts (keys (shared c)) k) (keys (shared c)) @
                        k # drop (SearchInts (keys (shared c)) k) (keys (shared c)),
               keySet := MadeMap ((entries (keySet (shared c)))(k \<mapsto> True)),
               data := MadeMap ((entries (data (shared c)))(k \<mapsto> vs ! i))\<rparr>,
             threads := (threads c)(i := Returning (vs ! i, False))\<rparr>"
      by simp
    have absent: "entries (data (shared c)) k = None"
    proof (cases "entries (data (shared c)) k")
      case None then show ?thesis .
    next
      case (Some v)
      with inv obtain w where w: "w < length vs" "winner v (threads c w)"
        "\<forall>j<length vs. j \<noteq> w \<longrightarrow> loser v (threads c j)"
        by (auto simp: data_inv_def)
      with Inserting i have False by (cases "i = w") auto
      then show ?thesis ..
    qed
    have "\<forall>j<length vs. j \<noteq> i \<longrightarrow> loser (vs ! i) (threads c j)"
    proof (intro allI impI)
      fix j assume j: "j < length vs" "j \<noteq> i"
      with linv h have "quiet (threads c j)" by (simp add: others_quiet)
      moreover from inv absent j have "before_win (threads c j)" by (simp add: data_inv_def)
      ultimately show "loser (vs ! i) (threads c j)" by (cases "threads c j") simp_all
    qed
    with i show ?thesis unfolding c' data_inv_def by auto
  next
    case (Returning r)
    with st i have c': "c' = c\<lparr>mu := None, threads := (threads c)(i := Done r)\<rparr>"
      by (auto simp: thread_step_def)
    show ?thesis
    proof (cases "entries (data (shared c)) k")
      case None
      with inv i have "before_win (threads c i)" by (simp add: data_inv_def)
      with Returning show ?thesis by simp
    next
      case (Some v)
      with inv obtain w where w: "w < length vs" "v = vs ! w" "winner v (threads c w)"
        "\<forall>j<length vs. j \<noteq> w \<longrightarrow> loser v (threads c j)"
        by (auto simp: data_inv_def)
      show ?thesis
      proof (cases "i = w")
        case True
        with w Returning Some show ?thesis unfolding c' data_inv_def by auto
      next
        case False
        with w i Returning have "r = (v, True)" by auto
        with w False Some show ?thesis unfolding c' data_inv_def by auto
      qed
    qed
  next
    case (Done r)
    with st i show ?thesis by (simp add: thread_step_def)
  next
    case (Panicked e)
    with st i show ?thesis by (simp add: thread_step_def)
  qed
qed

lemma exec_lock_inv: "lock_inv vs c \<Longrightarrow> exec k vs sched c = Some c' \<Longrightarrow> lock_inv vs c'"
proof (induction sched arbitrary: c)
  case Nil
  then show ?case by simp
next
  case (Cons i sched)
  from Cons.prems(2) obtain c1 where c1: "thread_step k vs i c = Some c1"
    and rest: "exec k vs sched c1 = Some c'"
    by (auto split: option.splits)
  from Cons.prems(1) c1 have "lock_inv vs c1" by (rule step_lock_inv)
  from this rest show ?case by (rule Cons.IH)
qed

lemma exec_inv:
  "lock_inv vs c \<Longrightarrow> data_inv k vs c \<Longrightarrow> made (shared c) \<Longrightarrow>
   exec k vs sched c = Some c' \<Longrightarrow> data_inv k vs c' \<and> made (shared c')"
proof (induction sched arbitrary: c)
  case Nil
  then show ?case by simp
next
  case (Cons i sched)
  from Cons.prems(4) obtain c1 where c1: "thread_step k vs i c = Some c1"
    and rest: "exec k vs sched c1 = Some c'"
    by (auto split: option.splits)
  from Cons.prems(1) c1 have l1: "lock_inv vs c1" by (rule step_lock_inv)
  from Cons.prems(1,2,3) c1 have d1: "data_inv k vs c1" by (rule step_data_inv)
  from Cons.prems(3) c1 have m1: "made (shared c1)" by (rule step_made)
  from l1 d1 m1 rest show ?case by (rule Cons.IH)
qed

text \<open>Every step moves its caller up, so an execution has at most four steps per caller.\<close>

lemma step_rank:
  assumes "thread_step k vs i c = Some c'"
  shows "i < length vs \<and> rank (threads c i) < rank (threads c' i) \<and>
         (\<forall>j. j \<noteq> i \<longrightarrow> threads c' j = threads c j)"
proof -
  from assms have i: "i < length vs" by (simp add: thread_step_def split: if_splits)
  show ?thesis
  proof (cases "threads c i")
    case Idle
    with assms i show ?thesis by (auto simp: thread_step_def split: if_splits)
  next
    case Checking
    with assms i show ?thesis by (auto simp: thread_step_def split: option.splits)
  next
    case Inserting
    with assms i show ?thesis
      by (auto simp: thread_step_def insert_key_search split: option.splits)
  next
    case (Returning r)
    with assms i show ?thesis by (auto simp: thread_step_def)
  next
    case (Done r)
    with assms i show ?thesis by (simp add: thread_step_def)
  next
    case (Panicked e)
    with assms i show ?thesis by (simp add: thread_step_def)
  qed
qed

lemma step_work:
  assumes "thread_step k vs i c = Some c'"
  shows "work vs c < work vs c'"
proof -
  from step_rank [OF assms] have i: "i \<in> {..<length vs}"
    and up: "rank (threads c i) < rank (threads c' i)"
    and same: "\<forall>j. j \<noteq> i \<longrightarrow> threads c' j = threads c j"
    by simp_all
  have "\<forall>j\<in>{..<length vs}. rank (threads c j) \<le> rank (threads c' j)"
  proof
    fix j assume "j \<in> {..<length vs}"
    show "rank (threads c j) \<le> rank (threads c' j)"
      using up same by (cases "j = i") simp_all
  qed
  moreover have "\<exists>j\<in>{..<length vs}. rank (threads c j) < rank (threads c' j)"
    using i up by blast
  ultimately show ?thesis
    unfolding work_def by (intro sum_strict_mono_ex1) simp_all
qed

lemma exec_work: "exec k vs sched c = Some c' \<Longrightarrow> work vs c + length sched \<le> work vs c'"
proof (induction sched arbitrary: c)
  case Nil
  then show ?case by simp
next
  case (Cons i sched)
  from Cons.prems obtain c1 where c1: "thread_step k vs i c = Some c1"
    and rest: "exec k vs sched c1 = Some c'"
    by (auto split: option.splits)
  from step_work [OF c1] Cons.IH [OF rest] show ?case by simp
qed

lemma rank_le: "rank t \<le> 4"
  by (cases t) simp_all

lemma work_le: "work vs c \<le> 4 * length vs"
proof -
  have "(\<Sum>j<length vs. rank (threads c j)) \<le> (\<Sum>j<length vs. 4)"
    by (intro sum_mono) (simp add: rank_le)
  then show ?thesis by (simp add: work_def)
qed

lemma exec_length: "exec k vs sched c = Some c' \<Longrightarrow> length sched \<le> 4 * length vs"
  using exec_work [of k vs sched c c'] work_le [of vs c'] by simp

text \<open>No deadlock: while a caller has not finished, some caller can move.\<close>

lemma progress:
  assumes linv: "lock_inv vs c" and i: "i < length vs" and nf: "\<not> finished (threads c i)"
  shows "\<exists>j<length vs. thread_step k vs j c \<noteq> None"
proof (cases "mu c")
  case None
  with linv i have "quiet (threads c i)" by (simp add: lock_inv_def)
  with nf have "threads c i = Idle" by (cases "threads c i") simp_all
  with None i have "thread_step k vs i c \<noteq> None" by (simp add: thread_step_def)
  with i show ?thesis by blast
next
  case (Some h)
  with linv have h: "h < length vs" "in_cs (threads c h)" by (simp_all add: lock_inv_def)
  then have "thread_step k vs h c \<noteq> None"
    by (cases "threads c h")
       (simp_all add: thread_step_def insert_key_search split: option.split)
  with h show ?thesis by blast
qed

text \<open>When all callers have finished, the invariant of the entry names the one winner.\<close>

lemma all_returned:
  assumes dinv: "data_inv k vs c" and ne: "vs \<noteq> []"
    and fin: "\<forall>i<length vs. finished (threads c i)"
  shows "\<exists>w<length vs. threads c w = Done (vs ! w, False) \<and>
           (\<forall>i<length vs. i \<noteq> w \<longrightarrow> threads c i = Done (vs ! w, True)) \<and>
           Load (shared c) (VInt k) = (Inr (vs ! w, True), shared c)"
proof (cases "entries (data (shared c)) k")
  case None
  from ne have 0: "0 < length vs" by simp
  with dinv None have "before_win (threads c 0)" by (simp add: data_inv_def)
  moreover from fin 0 have "finished (threads c 0)" by simp
  ultimately have False by (cases "threads c 0") simp_all
  then show ?thesis ..
next
  case (Some v)
  with dinv obtain w where w: "w < length vs" "v = vs ! w" "winner v (threads c w)"
    "\<forall>j<length vs. j \<noteq> w \<longrightarrow> loser v (threads c j)"
    by (auto simp: data_inv_def)
  from fin w(1) have "finished (threads c w)" by simp
  with w(3) have 1: "threads c w = Done (v, False)" by (cases "threads c w") simp_all
  have 2: "\<forall>i<length vs. i \<noteq> w \<longrightarrow> threads c i = Done (v, True)"
  proof (intro allI impI)
    fix i assume i: "i < length vs" "i \<noteq> w"
    with w(4) have "loser v (threads c i)" by simp
    moreover from fin i have "finished (threads c i)" by simp
    ultimately show "threads c i = Done (v, True)" by (cases "threads c i") simp_all
  qed
  have 3: "Load (shared c) (VInt k) = (Inr (v, True), shared c)"
    using Some by (simp add: Load_def)
  from w(1) 1 2 3 show ?thesis unfolding w(2) by blast
qed

text \<open>
  A caller running alone goes through its steps to the result and the state of the
  sequential \<^verbatim>\<open>LoadOrStore\<close>.
\<close>

lemma solo_call:
  assumes "i < length vs" and "made m"
  shows "\<exists>sched c r. exec k vs sched (init_conf m) = Some c \<and> mu c = None \<and>
           threads c i = Done r \<and> LoadOrStore m (VInt k) (vs ! i) = (Inr r, shared c)"
proof (cases "entries (data m) k")
  case None
  let ?c = "\<lparr>shared = snd (LoadOrStore m (VInt k) (vs ! i)), mu = None,
             threads = (\<lambda>j. Idle)(i := Done (vs ! i, False))\<rparr>"
  from None assms have "exec k vs [i, i, i, i] (init_conf m) = Some ?c"
    by (simp add: thread_step_def init_conf_def insert_key_search LoadOrStore_absent
        made_def assign_made)
  moreover have "mu ?c = None" "threads ?c i = Done (vs ! i, False)" by simp_all
  moreover have "LoadOrStore m (VInt k) (vs ! i) = (Inr (vs ! i, False), shared ?c)"
    using None assms(2) by (simp add: LoadOrStore_absent)
  ultimately show ?thesis by blast
next
  case (Some v)
  let ?c = "\<lparr>shared = m, mu = None, threads = (\<lambda>j. Idle)(i := Done (v, True))\<rparr>"
  from Some assms have "exec k vs [i, i, i] (init_conf m) = Some ?c"
    by (simp add: thread_step_def init_conf_def)
  moreover have "mu ?c = None" "threads ?c i = Done (v, True)" by simp_all
  moreover have "LoadOrStore m (VInt k) (vs ! i) = (Inr (v, True), shared ?c)"
    using Some by (simp add: LoadOrStore_present)
  ultimately show ?thesis by blast
qed

lemma exec_serial: "exec 7 callers serial (init_conf example_map) = Some serial_end"
  by (simp add: callers_def serial_def init_conf_def thread_step_def example_map_def eval_defs
      serial_end_def)

lemma exec_partial: "exec 7 callers [1, 1] (init_conf example_map) = Some serial_mid"
  by (simp add: callers_def init_conf_def thread_step_def example_map_def serial_mid_def)

text \<open>On the zero value of the struct every caller panics at the first map assignment.\<close>

lemma exec_zero: "exec 7 callers zero_sched (init_conf zero_osm) = Some zero_end"
  by (simp add: callers_def zero_sched_def init_conf_def thread_step_def zero_osm_def eval_defs
      zero_end_def)

section \<open>The claims\<close>

text \<open>
  C1. Starting from a new container, after any finite sequence of Store, Delete,
  LoadOrStore and LoadAndDelete calls with \<^verbatim>\<open>int\<close> keys, the key slice is strictly
  ascending and free of duplicates, it holds exactly the keys that have an entry in the
  mapping, which are exactly the keys in \<^verbatim>\<open>keySet\<close> (as a map domain and as the keys it
  reads \<^verbatim>\<open>true\<close> for), and \<^verbatim>\<open>Len\<close> equals the length of the key slice. Both maps stay made.
\<close>

theorem C1_order_invariant:
  "sorted_wrt (<) (keys (run ops)) \<and> distinct (keys (run ops)) \<and>
   set (keys (run ops)) = dom (entries (data (run ops))) \<and>
   set (keys (run ops)) = dom (entries (keySet (run ops))) \<and>
   set (keys (run ops)) = {k. keySet_get (keySet (run ops)) k} \<and>
   Len (run ops) = int (length (keys (run ops))) \<and>
   made (run ops)"
proof -
  have inv: "osm_inv (run ops)" and mk: "made (run ops)" using run_inv [of ops] by simp_all
  then have "distinct (keys (run ops))" by (simp add: osm_inv_def strict_sorted_iff)
  moreover have "set (keys (run ops)) = {k. keySet_get (keySet (run ops)) k}"
    using inv_keySet_get [OF inv] by auto
  ultimately show ?thesis using inv mk inv_Len [OF inv] by (simp add: osm_inv_def)
qed

text \<open>The scenario of the specification as an instance.\<close>

theorem C1_order_invariant_witness:
  "keys (run scenario) = [10, 20] \<and> sorted_wrt (<) (keys (run scenario)) \<and>
   set (keys (run scenario)) = dom (entries (data (run scenario))) \<and>
   Len (run scenario) = 2"
  using C1_order_invariant [of scenario] by (simp add: run_scenario)

text \<open>
  C2, as stated, fails on the zero value of the struct: key 1 is absent there, and
  \<^verbatim>\<open>LoadOrStore(1, v)\<close> panics at the assignment to the nil \<^verbatim>\<open>keySet\<close>, after the key slice
  has been written and with nothing recorded in either map.
\<close>

theorem C2_LoadOrStore_counterexample:
  "osm_inv (zero_osm :: string osm) \<and>
   entries (data (zero_osm :: string osm)) 1 = None \<and>
   LoadOrStore (zero_osm :: string osm) (VInt 1) (VOther ''a'') =
     (Inl NilMapAssign, zero_osm\<lparr>keys := [1]\<rparr>) \<and>
   entries (data (snd (LoadOrStore (zero_osm :: string osm) (VInt 1) (VOther ''a'')))) 1 = None \<and>
   entries (keySet (snd (LoadOrStore (zero_osm :: string osm) (VInt 1) (VOther ''a'')))) 1 = None"
  by (simp add: zero_inv load_or_store_zero) (simp add: zero_osm_def)

text \<open>
  C2, amended. LoadOrStore with an \<^verbatim>\<open>int\<close> key \<open>k\<close>. If \<open>k\<close> is live (in any state), the call
  returns the current value with \<open>loaded = true\<close> and the state is unchanged. If \<open>k\<close> is
  absent in a state that satisfies the invariant and whose two maps are made (as
  \<^verbatim>\<open>NewOrderedSyncMap\<close> makes them), the call returns \<open>(v, false)\<close>, and the new state has \<open>k\<close>
  inserted in the key slice at the binary-search position \<open>p\<close> (every key before \<open>p\<close> is
  below \<open>k\<close>, every key from \<open>p\<close> on is at least \<open>k\<close>, and the new slice is strictly
  ascending), \<open>k\<close> marked in \<^verbatim>\<open>keySet\<close> and \<open>v\<close> stored in the mapping.
\<close>

theorem C2_LoadOrStore:
  "(entries (data m) k = Some w \<longrightarrow> LoadOrStore m (VInt k) v = (Inr (w, True), m)) \<and>
   (osm_inv m \<and> made m \<and> entries (data m) k = None \<longrightarrow>
      (\<exists>p \<le> length (keys m).
         p = SearchInts (keys m) k \<and>
         (\<forall>x\<in>set (take p (keys m)). x < k) \<and>
         (\<forall>x\<in>set (drop p (keys m)). k \<le> x) \<and>
         LoadOrStore m (VInt k) v =
           (Inr (v, False),
            m\<lparr>keys := take p (keys m) @ k # drop p (keys m),
              keySet := MadeMap ((entries (keySet m))(k \<mapsto> True)),
              data := MadeMap ((entries (data m))(k \<mapsto> v))\<rparr>) \<and>
         sorted_wrt (<) (take p (keys m) @ k # drop p (keys m))))"
proof (intro conjI impI)
  assume "entries (data m) k = Some w"
  then show "LoadOrStore m (VInt k) v = (Inr (w, True), m)" by (rule LoadOrStore_present)
next
  assume a: "osm_inv m \<and> made m \<and> entries (data m) k = None"
  then have s: "sorted_wrt (<) (keys m)" and nin: "k \<notin> set (keys m)"
    using inv_data_None [of m k] by (simp_all add: osm_inv_def)
  have srt: "sorted (keys m)" using s by (rule strict_sorted_imp_sorted)
  let ?p = "SearchInts (keys m) k"
  have "?p \<le> length (keys m)" by (rule SearchInts_le_length)
  moreover note SearchInts_take [OF srt, of k] SearchInts_drop [OF srt, of k]
  moreover have "LoadOrStore m (VInt k) v =
           (Inr (v, False),
            m\<lparr>keys := take ?p (keys m) @ k # drop ?p (keys m),
              keySet := MadeMap ((entries (keySet m))(k \<mapsto> True)),
              data := MadeMap ((entries (data m))(k \<mapsto> v))\<rparr>)"
    using a by (simp add: LoadOrStore_absent)
  moreover have "sorted_wrt (<) (take ?p (keys m) @ k # drop ?p (keys m))"
    using s nin by (rule insert_sorted)
  ultimately show "\<exists>p \<le> length (keys m).
         p = SearchInts (keys m) k \<and>
         (\<forall>x\<in>set (take p (keys m)). x < k) \<and>
         (\<forall>x\<in>set (drop p (keys m)). k \<le> x) \<and>
         LoadOrStore m (VInt k) v =
           (Inr (v, False),
            m\<lparr>keys := take p (keys m) @ k # drop p (keys m),
              keySet := MadeMap ((entries (keySet m))(k \<mapsto> True)),
              data := MadeMap ((entries (data m))(k \<mapsto> v))\<rparr>) \<and>
         sorted_wrt (<) (take p (keys m) @ k # drop p (keys m))"
    by blast
qed

text \<open>Key 10 is live in the example container, key 7 is absent and belongs at index 1.\<close>

theorem C2_LoadOrStore_witness:
  "entries (data example_map) 10 = Some VNil \<and>
   LoadOrStore example_map (VInt 10) (VOther ''x'') = (Inr (VNil, True), example_map) \<and>
   osm_inv example_map \<and> made example_map \<and> entries (data example_map) 7 = None \<and>
   SearchInts (keys example_map) 7 = 1 \<and>
   LoadOrStore example_map (VInt 7) (VOther ''x'') =
     (Inr (VOther ''x'', False),
      example_map\<lparr>keys := [5, 7, 10, 20],
        keySet := MadeMap ((entries (keySet example_map))(7 \<mapsto> True)),
        data := MadeMap ((entries (data example_map))(7 \<mapsto> VOther ''x''))\<rparr>)"
proof -
  have live: "entries (data example_map) 10 = Some VNil" by (simp add: example_map_def)
  have absent: "osm_inv example_map \<and> made example_map \<and> entries (data example_map) 7 = None"
    using example_inv example_made by (simp add: example_map_def)
  have pos: "SearchInts (keys example_map) 7 = 1"
    by (simp add: example_map_def SearchInts_def search_loop.simps)
  have ks: "keys example_map = [5, 10, 20]" by (simp add: example_map_def)
  from C2_LoadOrStore [of example_map 10 VNil "VOther ''x''"] live
  have 1: "LoadOrStore example_map (VInt 10) (VOther ''x'') = (Inr (VNil, True), example_map)"
    by blast
  from C2_LoadOrStore [of example_map 7 VNil "VOther ''x''"] absent
  have 2: "LoadOrStore example_map (VInt 7) (VOther ''x'') =
     (Inr (VOther ''x'', False),
      example_map\<lparr>keys := take 1 (keys example_map) @ 7 # drop 1 (keys example_map),
        keySet := MadeMap ((entries (keySet example_map))(7 \<mapsto> True)),
        data := MadeMap ((entries (data example_map))(7 \<mapsto> VOther ''x''))\<rparr>)"
    unfolding pos by blast
  from live absent pos 1 2 show ?thesis by (simp add: ks)
qed

text \<open>
  C3. LoadAndDelete with an \<^verbatim>\<open>int\<close> key \<open>k\<close>, in a state satisfying the invariant. If \<open>k\<close>
  is live, the call returns its value with \<open>loaded = true\<close> and removes \<open>k\<close> from the key
  slice, from \<^verbatim>\<open>keySet\<close> and from the mapping. If \<open>k\<close> is absent it returns \<open>(nil, false)\<close>
  and the state is unchanged. In both cases the result is that of \<^verbatim>\<open>Load(k)\<close> and the state
  is that of \<^verbatim>\<open>Delete(k)\<close> run right after it.
\<close>

theorem C3_LoadAndDelete:
  assumes "osm_inv m"
  shows "(entries (data m) k = Some w \<longrightarrow>
            LoadAndDelete m (VInt k) =
              (Inr (w, True),
               m\<lparr>keys := remove1 k (keys m), keySet := map_delete (keySet m) k,
                 data := map_delete (data m) k\<rparr>) \<and>
            entries (map_delete (keySet m) k) = (entries (keySet m))(k := None) \<and>
            entries (map_delete (data m) k) = (entries (data m))(k := None) \<and>
            k \<notin> set (remove1 k (keys m)) \<and>
            set (remove1 k (keys m)) = set (keys m) - {k}) \<and>
         (entries (data m) k = None \<longrightarrow> LoadAndDelete m (VInt k) = (Inr (VNil, False), m)) \<and>
         LoadAndDelete m (VInt k) =
           (fst (Load m (VInt k)), snd (Delete (snd (Load m (VInt k))) (VInt k)))"
proof -
  have s: "sorted_wrt (<) (keys m)" using assms by (simp add: osm_inv_def)
  have d: "distinct (keys m)" using s by (simp add: strict_sorted_iff)
  have load: "snd (Load m (VInt k)) = m" by (simp add: Load_def split: option.split)
  show ?thesis
  proof (cases "entries (data m) k")
    case None
    then have "\<not> keySet_get (keySet m) k"
      using inv_keySet_get [OF assms, of k] inv_data_None [OF assms, of k] by simp
    with None show ?thesis by (simp add: LoadAndDelete_def Load_def Delete_def)
  next
    case (Some u)
    then have mem: "k \<in> set (keys m)" using inv_data_None [OF assms, of k] by simp
    then have ksg: "keySet_get (keySet m) k" using inv_keySet_get [OF assms, of k] by simp
    have rk: "remove_key (keys m) (SearchInts (keys m) k) k = remove1 k (keys m)"
      using s mem by (rule remove_key_remove1)
    from Some ksg rk d show ?thesis
      by (simp add: LoadAndDelete_def Load_def Delete_def entries_delete)
  qed
qed

text \<open>Key 10 is live in the example container, key 7 is absent.\<close>

theorem C3_LoadAndDelete_witness:
  "osm_inv example_map \<and>
   LoadAndDelete example_map (VInt 10) =
     (Inr (VNil, True),
      example_map\<lparr>keys := [5, 20], keySet := map_delete (keySet example_map) 10,
        data := map_delete (data example_map) 10\<rparr>) \<and>
   LoadAndDelete example_map (VInt 7) = (Inr (VNil, False), example_map)"
proof -
  have live: "entries (data example_map) 10 = Some VNil"
    and absent: "entries (data example_map) 7 = None"
    and ks: "keys example_map = [5, 10, 20]"
    by (simp_all add: example_map_def)
  from C3_LoadAndDelete [OF example_inv, of 10 VNil] C3_LoadAndDelete [OF example_inv, of 7 VNil]
    live absent example_inv
  show ?thesis by (simp add: ks)
qed

text \<open>
  C4, as stated, fails on the zero value of the struct: \<^verbatim>\<open>Store(1, v)\<close> panics there at the
  assignment to the nil \<^verbatim>\<open>keySet\<close>, and \<^verbatim>\<open>Load(1)\<close> on the state it leaves finds nothing.
\<close>

theorem C4_store_load_counterexample:
  "Store (zero_osm :: string osm) (VInt 1) (VOther ''a'') =
     (Inl NilMapAssign, zero_osm\<lparr>keys := [1]\<rparr>) \<and>
   Load (snd (Store (zero_osm :: string osm) (VInt 1) (VOther ''a''))) (VInt 1) =
     (Inr (VNil, False), zero_osm\<lparr>keys := [1]\<rparr>)"
  by (simp add: store_zero) (simp add: zero_osm_def Load_def)

text \<open>
  C4, amended. Round trip: in every container state whose two maps are made (as
  \<^verbatim>\<open>NewOrderedSyncMap\<close> makes them), \<^verbatim>\<open>Store(k, v)\<close> returns normally and an immediately
  following \<^verbatim>\<open>Load(k)\<close> returns \<open>(v, true)\<close>, leaving the state as Store left it. (Store
  returns normally in no other state, by \<open>Store_nil_panics\<close>.)
\<close>

theorem C4_store_load:
  assumes "made m"
  shows "fst (Store m (VInt k) v) = Inr () \<and>
         Load (snd (Store m (VInt k) v)) (VInt k) = (Inr (v, True), snd (Store m (VInt k) v))"
  using assms
  by (cases "keySet_get (keySet m) k")
     (simp_all add: Store_absent Store_present Load_def made_def)

text \<open>Storing at the absent key 7 and at the live key 10 of the example container.\<close>

theorem C4_store_load_witness:
  "made example_map \<and>
   fst (Store example_map (VInt 7) (VOther ''x'')) = Inr () \<and>
   Load (snd (Store example_map (VInt 7) (VOther ''x''))) (VInt 7) =
     (Inr (VOther ''x'', True), snd (Store example_map (VInt 7) (VOther ''x''))) \<and>
   Load (snd (Store example_map (VInt 10) (VOther ''x''))) (VInt 10) =
     (Inr (VOther ''x'', True), snd (Store example_map (VInt 10) (VOther ''x'')))"
  using C4_store_load [OF example_made, of 7 "VOther ''x''"]
    C4_store_load [OF example_made, of 10 "VOther ''x''"] example_made
  by simp

text \<open>
  C5. Idempotent delete: in a state satisfying the invariant, \<^verbatim>\<open>Delete(k)\<close> of an absent
  key leaves the state unchanged; and in every state a second \<^verbatim>\<open>Delete(k)\<close> right after
  the first changes nothing more.
\<close>

theorem C5_idempotent_delete:
  "(osm_inv m \<and> entries (data m) k = None \<longrightarrow> Delete m (VInt k) = (Inr (), m)) \<and>
   Delete (snd (Delete m (VInt k))) (VInt k) = (Inr (), snd (Delete m (VInt k)))"
proof (intro conjI impI)
  assume a: "osm_inv m \<and> entries (data m) k = None"
  then have "\<not> keySet_get (keySet m) k"
    using inv_keySet_get [of m k] inv_data_None [of m k] by simp
  then show "Delete m (VInt k) = (Inr (), m)" by (simp add: Delete_def)
next
  have "\<not> keySet_get (keySet (snd (Delete m (VInt k)))) k"
    by (simp add: Delete_def keySet_get_def entries_delete)
  then show "Delete (snd (Delete m (VInt k))) (VInt k) = (Inr (), snd (Delete m (VInt k)))"
    by (simp add: Delete_def [of "snd (Delete m (VInt k))"])
qed

text \<open>Deleting the absent key 7 and deleting the live key 10 twice.\<close>

theorem C5_idempotent_delete_witness:
  "osm_inv example_map \<and> entries (data example_map) 7 = None \<and>
   Delete example_map (VInt 7) = (Inr (), example_map) \<and>
   keys (snd (Delete example_map (VInt 10))) = [5, 20] \<and>
   Delete (snd (Delete example_map (VInt 10))) (VInt 10) =
     (Inr (), snd (Delete example_map (VInt 10)))"
proof -
  have absent: "osm_inv example_map \<and> entries (data example_map) 7 = None"
    using example_inv by (simp add: example_map_def)
  have "keys (snd (Delete example_map (VInt 10))) = [5, 20]"
    by (simp add: example_map_def eval_defs)
  with C5_idempotent_delete [of example_map 7] C5_idempotent_delete [of example_map 10] absent
  show ?thesis by blast
qed

text \<open>
  C6. Frame property of Store, in a state satisfying the invariant. If \<open>k\<close> is live,
  \<^verbatim>\<open>Store(k, v)\<close> returns normally and changes nothing but the value mapped to \<open>k\<close>: the key
  slice and \<^verbatim>\<open>keySet\<close> stay as they are. If \<open>k\<close> is absent, the key slice grows by
  exactly one and the values of all other keys stay as they are; this is so also when a
  map is nil and the call panics after it has written the slice. When both maps are made
  the call returns normally.
\<close>

theorem C6_Store_frame:
  assumes "osm_inv m"
  shows "(entries (data m) k \<noteq> None \<longrightarrow>
            Store m (VInt k) v = (Inr (), m\<lparr>data := MadeMap ((entries (data m))(k \<mapsto> v))\<rparr>) \<and>
            keys (snd (Store m (VInt k) v)) = keys m \<and>
            keySet (snd (Store m (VInt k) v)) = keySet m) \<and>
         (entries (data m) k = None \<longrightarrow>
            length (keys (snd (Store m (VInt k) v))) = length (keys m) + 1 \<and>
            (\<forall>j. j \<noteq> k \<longrightarrow> entries (data (snd (Store m (VInt k) v))) j = entries (data m) j)) \<and>
         (made m \<longrightarrow> fst (Store m (VInt k) v) = Inr ())"
proof (cases "entries (data m) k")
  case None
  then have "\<not> keySet_get (keySet m) k"
    using inv_keySet_get [OF assms, of k] inv_data_None [OF assms, of k] by simp
  then have "keys (snd (Store m (VInt k) v)) =
      take (SearchInts (keys m) k) (keys m) @ k # drop (SearchInts (keys m) k) (keys m)"
    by (rule Store_keys_absent)
  moreover have "SearchInts (keys m) k \<le> length (keys m)" by (rule SearchInts_le_length)
  ultimately have "length (keys (snd (Store m (VInt k) v))) = length (keys m) + 1" by simp
  with None show ?thesis by (simp add: Store_data_others Store_made_returns)
next
  case (Some u)
  then have "keySet_get (keySet m) k"
    using inv_keySet_get [OF assms, of k] inv_data_None [OF assms, of k] by simp
  moreover from Some have "is_made (data m)" by (rule entries_Some_made)
  ultimately show ?thesis using Some by (simp add: Store_present Store_made_returns)
qed

text \<open>
  Overwriting the live key 10 and inserting the absent key 7 in the example container;
  and inserting key 1 in the zero value of the struct, where the call panics with the
  slice grown by one.
\<close>

theorem C6_Store_frame_witness:
  "osm_inv example_map \<and> made example_map \<and>
   Store example_map (VInt 10) (VOther ''x'') =
     (Inr (),
      example_map\<lparr>data := MadeMap ((entries (data example_map))(10 \<mapsto> VOther ''x''))\<rparr>) \<and>
   length (keys (snd (Store example_map (VInt 7) (VOther ''x'')))) = 4 \<and>
   entries (data (snd (Store example_map (VInt 7) (VOther ''x'')))) 5 = Some (VOther ''b'') \<and>
   fst (Store example_map (VInt 7) (VOther ''x'')) = Inr () \<and>
   osm_inv (zero_osm :: string osm) \<and>
   length (keys (snd (Store (zero_osm :: string osm) (VInt 1) (VOther ''a'')))) = 1 \<and>
   fst (Store (zero_osm :: string osm) (VInt 1) (VOther ''a'')) = Inl NilMapAssign"
proof -
  have z: "entries (data (zero_osm :: string osm)) 1 = None"
    and zk: "length (keys (zero_osm :: string osm)) = 0"
    by (simp_all add: zero_osm_def)
  from C6_Store_frame [OF zero_inv, of 1 "VOther ''a'' :: string iface"] z zk
  have zero: "length (keys (snd (Store (zero_osm :: string osm) (VInt 1) (VOther ''a'')))) = 1"
    by simp
  have panic: "fst (Store (zero_osm :: string osm) (VInt 1) (VOther ''a'')) = Inl NilMapAssign"
    by (simp add: store_zero)
  have live: "entries (data example_map) 10 \<noteq> None"
    and absent: "entries (data example_map) 7 = None"
    and ks: "length (keys example_map) = 3"
    and d5: "entries (data example_map) 5 = Some (VOther ''b'')"
    by (simp_all add: example_map_def)
  from C6_Store_frame [OF example_inv, of 10 "VOther ''x''"]
    C6_Store_frame [OF example_inv, of 7 "VOther ''x''"] live absent example_inv example_made
    ks d5 zero panic zero_inv
  show ?thesis by simp
qed

text \<open>
  C7. \<^verbatim>\<open>Range\<close>, for a callback with state of its own, in any container state. The
  entries handed to the callback are an initial segment of the live entries taken in the
  order of the key slice, each with its current value; every call but the last returned
  true, so nothing is visited after a false verdict; when no call returned false, every live
  entry is visited. A key of the slice without an entry in the mapping is passed over: the
  live entries are the slice filtered by membership in the mapping. Under the invariant
  the visited keys are strictly ascending and no key of the slice is passed over. Logging
  the calls does not change what the callback computes.
\<close>

theorem C7_Range:
  "prefix (map (\<lambda>e. (fst e, fst (snd e))) (visits m f c)) (live_entries m) \<and>
   (\<forall>e\<in>set (butlast (visits m f c)). snd (snd e)) \<and>
   ((\<forall>e\<in>set (visits m f c). snd (snd e)) \<longrightarrow>
      map (\<lambda>e. (fst e, fst (snd e))) (visits m f c) = live_entries m) \<and>
   map fst (live_entries m) = filter (\<lambda>k. entries (data m) k \<noteq> None) (keys m) \<and>
   (\<forall>e\<in>set (live_entries m). entries (data m) (fst e) = Some (snd e)) \<and>
   (osm_inv m \<longrightarrow>
      sorted_wrt (<) (map fst (visits m f c)) \<and> map fst (live_entries m) = keys m) \<and>
   fst (Range_osm m (logged f) (c, [])) = Range_osm m f c"
proof (intro conjI impI)
  show "prefix (map (\<lambda>e. (fst e, fst (snd e))) (visits m f c)) (live_entries m)"
    unfolding visits_calls live_entries_def by (rule calls_prefix)
  show "\<forall>e\<in>set (butlast (visits m f c)). snd (snd e)"
    unfolding visits_calls by (rule calls_butlast)
  show "map fst (live_entries m) = filter (\<lambda>k. entries (data m) k \<noteq> None) (keys m)"
    unfolding live_entries_def by (rule live_list_keys)
  show "\<forall>e\<in>set (live_entries m). entries (data m) (fst e) = Some (snd e)"
    unfolding live_entries_def using live_list_sound [of _ _ "entries (data m)" "keys m"] by auto
  show "fst (Range_osm m (logged f) (c, [])) = Range_osm m f c"
    by (rule Range_logged)
next
  assume "\<forall>e\<in>set (visits m f c). snd (snd e)"
  then show "map (\<lambda>e. (fst e, fst (snd e))) (visits m f c) = live_entries m"
    unfolding visits_calls live_entries_def by (rule calls_all_true)
next
  assume "osm_inv m"
  then show "sorted_wrt (<) (map fst (visits m f c))"
    unfolding visits_calls by (intro visited_keys_sorted) (simp add: osm_inv_def)
next
  assume "osm_inv m"
  then have "set (keys m) \<subseteq> dom (entries (data m))" by (simp add: osm_inv_def)
  then show "map fst (live_entries m) = keys m"
    unfolding live_entries_def by (rule live_list_all)
qed

text \<open>
  On the example container one callback stops at key 10, so key 20 is not visited, and
  another visits all three entries. On the state with the stale key 2, that key is passed
  over and keys 1 and 3 are visited.
\<close>

theorem C7_Range_witness:
  "osm_inv example_map \<and>
   visits example_map stop_at_ten 0 = [(5, VOther ''b'', True), (10, VNil, False)] \<and>
   live_entries example_map = [(5, VOther ''b''), (10, VNil), (20, VInt 7)] \<and>
   prefix [(5, VOther ''b''), (10, VNil)] (live_entries example_map) \<and>
   sorted_wrt (<) (map fst (visits example_map stop_at_ten 0)) \<and>
   Range_osm example_map stop_at_ten 0 = 2 \<and>
   visits example_map count_all 0 =
     [(5, VOther ''b'', True), (10, VNil, True), (20, VInt 7, True)] \<and>
   map fst (live_entries example_map) = keys example_map \<and>
   visits stale_map count_all 0 = [(1, VOther ''x'', True), (3, VOther ''z'', True)] \<and>
   map (\<lambda>e. (fst e, fst (snd e))) (visits stale_map count_all 0) = live_entries stale_map \<and>
   map fst (live_entries stale_map) =
     filter (\<lambda>k. entries (data stale_map) k \<noteq> None) (keys stale_map) \<and>
   keys stale_map = [1, 2, 3]"
proof -
  have run: "Range_osm example_map stop_at_ten 0 = 2"
    by (simp add: Range_osm_def example_map_def stop_at_ten_def)
  have ks: "keys stale_map = [1, 2, 3]" by (simp add: stale_map_def)
  note stop = C7_Range [of example_map stop_at_ten 0]
  note skip = C7_Range [of stale_map count_all 0]
  have "\<forall>e\<in>set (visits stale_map count_all 0). snd (snd e)"
    by (simp add: stale_visits)
  with skip have all: "map (\<lambda>e. (fst e, fst (snd e))) (visits stale_map count_all 0) =
      live_entries stale_map"
    by blast
  from skip have filt: "map fst (live_entries stale_map) =
      filter (\<lambda>k. entries (data stale_map) k \<noteq> None) (keys stale_map)"
    by blast
  from stop example_inv
  have pre: "prefix (map (\<lambda>e. (fst e, fst (snd e))) (visits example_map stop_at_ten 0))
      (live_entries example_map)"
    and srt: "sorted_wrt (<) (map fst (visits example_map stop_at_ten 0))"
    and lk: "map fst (live_entries example_map) = keys example_map"
    by blast+
  from pre have pre': "prefix [(5, VOther ''b''), (10, VNil)] (live_entries example_map)"
    by (simp add: example_visits)
  from example_inv example_visits example_live pre' srt run example_visits_all lk stale_visits
    all filt ks
  show ?thesis by blast
qed

text \<open>
  C8. Domain mismatch: called with a key whose dynamic type is not \<^verbatim>\<open>int\<close>, each of
  Store, Load, Delete, LoadOrStore and LoadAndDelete panics at the type assertion and
  leaves the container state (data, keys, keySet) as it was.
\<close>

theorem C8_type_mismatch:
  assumes "\<forall>k. key \<noteq> VInt k"
  shows "Store m key v = (Inl TypeAssertion, m) \<and>
         Load m key = (Inl TypeAssertion, m) \<and>
         Delete m key = (Inl TypeAssertion, m) \<and>
         LoadOrStore m key v = (Inl TypeAssertion, m) \<and>
         LoadAndDelete m key = (Inl TypeAssertion, m)"
proof -
  from assms have "assert_int key = Inl TypeAssertion" by (cases key) simp_all
  then show ?thesis
    by (simp add: Store_def Load_def Delete_def LoadOrStore_def LoadAndDelete_def)
qed

text \<open>A string key on the example container.\<close>

theorem C8_type_mismatch_witness:
  "(\<forall>k. (VOther ''ten'' :: string iface) \<noteq> VInt k) \<and>
   Store example_map (VOther ''ten'') VNil = (Inl TypeAssertion, example_map) \<and>
   Load example_map (VOther ''ten'') = (Inl TypeAssertion, example_map) \<and>
   Delete example_map (VOther ''ten'') = (Inl TypeAssertion, example_map) \<and>
   LoadOrStore example_map (VOther ''ten'') VNil = (Inl TypeAssertion, example_map) \<and>
   LoadAndDelete example_map (VOther ''ten'') = (Inl TypeAssertion, example_map)"
proof -
  have h: "\<forall>k. (VOther ''ten'' :: string iface) \<noteq> VInt k" by simp
  from C8_type_mismatch [OF h, of example_map VNil] h show ?thesis by simp
qed

text \<open>
  C9, as stated, fails on the zero value of the struct: key 7 is absent there, and each of
  the three callers of \<^verbatim>\<open>LoadOrStore(7, v\<^sub>i)\<close> panics at the assignment to the nil
  \<^verbatim>\<open>keySet\<close>. All callers have finished, none has returned \<open>loaded = false\<close>, and
  \<^verbatim>\<open>Load(7)\<close> afterwards finds nothing.
\<close>

theorem C9_exactly_once_counterexample:
  "entries (data (zero_osm :: string osm)) 7 = None \<and> callers \<noteq> [] \<and>
   exec 7 callers zero_sched (init_conf zero_osm) = Some zero_end \<and>
   threads zero_end 0 = Panicked NilMapAssign \<and>
   threads zero_end 1 = Panicked NilMapAssign \<and>
   threads zero_end 2 = Panicked NilMapAssign \<and>
   length callers = 3 \<and>
   Load (shared zero_end) (VInt 7) = (Inr (VNil, False), shared zero_end)"
  by (simp add: exec_zero) (simp add: zero_osm_def callers_def zero_end_def Load_def)

text \<open>
  C9, amended. LoadOrStore exactly once, on a container whose two maps are made (as
  \<^verbatim>\<open>NewOrderedSyncMap\<close> makes them). The callers of \<^verbatim>\<open>LoadOrStore(k, v\<^sub>i)\<close> run as interleaved
  threads under the lock, from a container in which \<open>k\<close> is absent, with at least one
  caller. In every configuration an execution reaches in which all callers have finished,
  exactly one caller \<open>w\<close> has returned \<open>loaded = false\<close>, with its own value; every other caller
  has returned that value with \<open>loaded = true\<close>; and \<^verbatim>\<open>Load(k)\<close> on the container returns
  that value. The callers do return: while one has not finished some caller can move, and
  an execution has at most four steps per caller. (The values need not be distinct.)
\<close>

theorem C9_exactly_once:
  assumes "made m" and "entries (data m) k = None" and "vs \<noteq> []"
    and "exec k vs sched (init_conf m) = Some c"
  shows "((\<forall>i<length vs. finished (threads c i)) \<longrightarrow>
            (\<exists>w<length vs. threads c w = Done (vs ! w, False) \<and>
               (\<forall>i<length vs. i \<noteq> w \<longrightarrow> threads c i = Done (vs ! w, True)) \<and>
               Load (shared c) (VInt k) = (Inr (vs ! w, True), shared c))) \<and>
         ((\<exists>i<length vs. \<not> finished (threads c i)) \<longrightarrow>
            (\<exists>j<length vs. thread_step k vs j c \<noteq> None)) \<and>
         length sched \<le> 4 * length vs"
proof -
  have l0: "lock_inv vs (init_conf m)" by (rule init_lock_inv)
  have d0: "data_inv k vs (init_conf m)" using assms(2) by (rule init_data_inv)
  have m0: "made (shared (init_conf m))" using assms(1) by (simp add: init_conf_def)
  from exec_lock_inv [OF l0 assms(4)] have linv: "lock_inv vs c" .
  from exec_inv [OF l0 d0 m0 assms(4)] have dinv: "data_inv k vs c" by simp
  show ?thesis
  proof (intro conjI impI)
    assume "\<forall>i<length vs. finished (threads c i)"
    with dinv assms(3) show "\<exists>w<length vs. threads c w = Done (vs ! w, False) \<and>
               (\<forall>i<length vs. i \<noteq> w \<longrightarrow> threads c i = Done (vs ! w, True)) \<and>
               Load (shared c) (VInt k) = (Inr (vs ! w, True), shared c)"
      by (rule all_returned)
  next
    assume "\<exists>i<length vs. \<not> finished (threads c i)"
    then obtain i where "i < length vs" "\<not> finished (threads c i)" by blast
    with linv show "\<exists>j<length vs. thread_step k vs j c \<noteq> None" by (rule progress)
  next
    from assms(4) show "length sched \<le> 4 * length vs" by (rule exec_length)
  qed
qed

text \<open>
  Caller 1 wins with ''b''; after its lookup it is about to insert and can move.
\<close>

theorem C9_exactly_once_witness:
  "made example_map \<and> entries (data example_map) 7 = None \<and> callers \<noteq> [] \<and>
   exec 7 callers serial (init_conf example_map) = Some serial_end \<and>
   threads serial_end 0 = Done (VOther ''b'', True) \<and>
   threads serial_end 1 = Done (VOther ''b'', False) \<and>
   threads serial_end 2 = Done (VOther ''b'', True) \<and>
   (\<exists>w<length callers. threads serial_end w = Done (callers ! w, False) \<and>
      (\<forall>i<length callers. i \<noteq> w \<longrightarrow> threads serial_end i = Done (callers ! w, True)) \<and>
      Load (shared serial_end) (VInt 7) = (Inr (callers ! w, True), shared serial_end)) \<and>
   exec 7 callers [1, 1] (init_conf example_map) = Some serial_mid \<and>
   threads serial_mid 1 = Inserting \<and>
   (\<exists>j<length callers. thread_step 7 callers j serial_mid \<noteq> None) \<and>
   length serial \<le> 4 * length callers"
proof -
  have absent: "entries (data example_map) 7 = None" by (simp add: example_map_def)
  have ne: "callers \<noteq> []" by (simp add: callers_def)
  note full = C9_exactly_once [OF example_made absent ne exec_serial]
  note part = C9_exactly_once [OF example_made absent ne exec_partial]
  have t: "threads serial_end 0 = Done (VOther ''b'', True)"
    "threads serial_end 1 = Done (VOther ''b'', False)"
    "threads serial_end 2 = Done (VOther ''b'', True)"
    by (simp_all add: serial_end_def)
  have "\<forall>i<length callers. finished (threads serial_end i)"
    by (auto simp: callers_def serial_end_def less_Suc_eq)
  with full have win: "\<exists>w<length callers. threads serial_end w = Done (callers ! w, False) \<and>
      (\<forall>i<length callers. i \<noteq> w \<longrightarrow> threads serial_end i = Done (callers ! w, True)) \<and>
      Load (shared serial_end) (VInt 7) = (Inr (callers ! w, True), shared serial_end)"
    by blast
  have mid: "threads serial_mid 1 = Inserting" by (simp add: serial_mid_def)
  then have "\<exists>i<length callers. \<not> finished (threads serial_mid i)"
    by (auto simp: callers_def)
  with part have prog: "\<exists>j<length callers. thread_step 7 callers j serial_mid \<noteq> None"
    by blast
  from full have bound: "length serial \<le> 4 * length callers" by blast
  from example_made absent ne exec_serial t win exec_partial mid prog bound
  show ?thesis by blast
qed

text \<open>
  C10, as stated, fails on the zero value of the struct, which satisfies the invariant:
  \<^verbatim>\<open>Store(1, nil)\<close> panics there at the assignment to the nil \<^verbatim>\<open>keySet\<close>; on the state it
  leaves, \<^verbatim>\<open>Load(1)\<close> finds nothing, \<^verbatim>\<open>Len\<close> is 0 and \<^verbatim>\<open>Range\<close> visits nothing.
\<close>

theorem C10_nil_value_counterexample:
  "osm_inv (zero_osm :: string osm) \<and>
   Store (zero_osm :: string osm) (VInt 1) VNil = (Inl NilMapAssign, zero_osm\<lparr>keys := [1]\<rparr>) \<and>
   Load (snd (Store (zero_osm :: string osm) (VInt 1) VNil)) (VInt 1) =
     (Inr (VNil, False), zero_osm\<lparr>keys := [1]\<rparr>) \<and>
   Len (snd (Store (zero_osm :: string osm) (VInt 1) VNil)) = 0 \<and>
   visits (snd (Store (zero_osm :: string osm) (VInt 1) VNil)) count_all 0 = []"
  by (simp add: store_zero zero_inv)
     (simp add: zero_osm_def Load_def Len_def visits_def Range_osm_def)

text \<open>
  C10, amended. Nil values are first-class. In a state that satisfies the invariant and
  whose two maps are made (as \<^verbatim>\<open>NewOrderedSyncMap\<close> makes them), after \<^verbatim>\<open>Store(k, nil)\<close> the
  key is live: \<^verbatim>\<open>Load(k)\<close> returns \<open>(nil, true)\<close>, \<^verbatim>\<open>LoadOrStore(k, w)\<close> returns \<open>(nil, true)\<close> and
  changes nothing, \<open>k\<close> is a key of the mapping and \<^verbatim>\<open>Len\<close> has grown by one if \<open>k\<close> was
  absent before, and \<^verbatim>\<open>Range\<close> hands \<open>(k, nil)\<close> to its callback unless the callback returned
  false at a smaller key.
\<close>

theorem C10_nil_value:
  assumes "osm_inv m" and "made m"
  shows "fst (Store m (VInt k) VNil) = Inr () \<and>
         Load (snd (Store m (VInt k) VNil)) (VInt k) =
           (Inr (VNil, True), snd (Store m (VInt k) VNil)) \<and>
         LoadOrStore (snd (Store m (VInt k) VNil)) (VInt k) w =
           (Inr (VNil, True), snd (Store m (VInt k) VNil)) \<and>
         k \<in> dom (entries (data (snd (Store m (VInt k) VNil)))) \<and>
         Len (snd (Store m (VInt k) VNil)) =
           (if entries (data m) k = None then Len m + 1 else Len m) \<and>
         ((\<exists>b. (k, VNil, b) \<in> set (visits (snd (Store m (VInt k) VNil)) f c)) \<or>
          (\<exists>k' v'. k' < k \<and> (k', v', False) \<in> set (visits (snd (Store m (VInt k) VNil)) f c)))"
proof -
  define m' where "m' = snd (Store m (VInt k) VNil)"
  have inv': "osm_inv m'" unfolding m'_def using assms by (rule Store_inv)
  have ok: "fst (Store m (VInt k) VNil) = Inr ()" using assms(2) by (rule Store_made_returns)
  have dm: "is_made (data m)" using assms(2) by (simp add: made_def)
  have dk: "entries (data m') k = Some VNil"
    unfolding m'_def using assms(2) dm
    by (cases "keySet_get (keySet m) k") (simp_all add: Store_absent Store_present)
  have dom': "dom (entries (data m')) = insert k (dom (entries (data m)))"
    unfolding m'_def using assms(2) dm
    by (cases "keySet_get (keySet m) k") (simp_all add: Store_absent Store_present)
  have fin: "finite (dom (entries (data m)))"
    using assms(1) by (metis osm_inv_def List.finite_set)
  have len: "Len m' = (if entries (data m) k = None then Len m + 1 else Len m)"
  proof (cases "entries (data m) k")
    case None
    then have "k \<notin> dom (entries (data m))" by (simp add: domIff)
    with fin None show ?thesis by (simp add: Len_def dom')
  next
    case (Some u)
    then have "insert k (dom (entries (data m))) = dom (entries (data m))" by auto
    with Some show ?thesis by (simp add: Len_def dom')
  qed
  have mem: "k \<in> set (keys m')" using inv' dk by (auto simp: osm_inv_def)
  have srt: "sorted_wrt (<) (map fst (live_list (entries (data m')) (keys m')))"
    using inv' by (simp add: live_list_keys osm_inv_def sorted_wrt_filter)
  let ?log = "calls_of f (entries (data m')) (keys m') c"
  let ?seen = "map (\<lambda>e. (fst e, fst (snd e))) ?log"
  have live: "(k, VNil) \<in> set (live_list (entries (data m')) (keys m'))"
    using mem dk by (rule live_list_complete)
  obtain rest where rest: "live_list (entries (data m')) (keys m') = ?seen @ rest"
    using calls_prefix [of f "entries (data m')" "keys m'" c] by (auto simp: prefix_def)
  have visit: "(\<exists>b. (k, VNil, b) \<in> set ?log) \<or> (\<exists>k' v'. k' < k \<and> (k', v', False) \<in> set ?log)"
  proof (cases "(k, VNil) \<in> set ?seen")
    case True
    then obtain e where e: "e \<in> set ?log" "fst e = k" "fst (snd e) = VNil" by auto
    obtain k' v' b where "e = (k', v', b)" by (rule prod_cases3)
    with e have "(k, VNil, b) \<in> set ?log" by simp
    then show ?thesis by blast
  next
    case False
    with live rest have inrest: "(k, VNil) \<in> set rest" by auto
    then have "?seen \<noteq> live_list (entries (data m')) (keys m')" using rest by auto
    then have "\<not> (\<forall>e\<in>set ?log. snd (snd e))"
      using calls_all_true [of f "entries (data m')" "keys m'" c] by (rule contrapos_nn)
    then obtain e where e: "e \<in> set ?log" "\<not> snd (snd e)" by blast
    obtain k' v' b where eq: "e = (k', v', b)" by (rule prod_cases3)
    with e have "(k', v', False) \<in> set ?log" by simp
    moreover have "k' \<in> set (map fst ?seen)" using e(1) eq by force
    then have "k' < k"
      using srt inrest unfolding rest by (force simp: sorted_wrt_append)
    ultimately show ?thesis by blast
  qed
  from ok dk len visit show ?thesis
    unfolding m'_def [symmetric] visits_calls
    by (simp add: Load_def LoadOrStore_def domIff)
qed

text \<open>Storing nil at the absent key 7 of the example container.\<close>

theorem C10_nil_value_witness:
  "osm_inv example_map \<and> made example_map \<and>
   Load (snd (Store example_map (VInt 7) VNil)) (VInt 7) =
     (Inr (VNil, True), snd (Store example_map (VInt 7) VNil)) \<and>
   Len example_map = 3 \<and> Len (snd (Store example_map (VInt 7) VNil)) = 4 \<and>
   visits (snd (Store example_map (VInt 7) VNil)) stop_at_ten 0 =
     [(5, VOther ''b'', True), (7, VNil, True), (10, VNil, False)]"
proof -
  have absent: "entries (data example_map) 7 = None" by (simp add: example_map_def)
  have len: "Len example_map = 3" by (simp add: Len_def example_map_def)
  have vis: "visits (snd (Store example_map (VInt 7) VNil)) stop_at_ten 0 =
     [(5, VOther ''b'', True), (7, VNil, True), (10, VNil, False)]"
    by (simp add: store_nil_example visits_def Range_osm_def logged_def stop_at_ten_def)
  from C10_nil_value [OF example_inv example_made, of 7 VNil stop_at_ten 0] absent len vis
    example_inv example_made
  show ?thesis by simp
qed

end
